theory Spec2Isabelle
  imports Main "HOL-Library.Sublist"
begin

section \<open>Python values read from JSON\<close>

text \<open>
  Everything \<^verbatim>\<open>extract-from-repos.py\<close> works on is a value returned by
  \<^verbatim>\<open>json.loads\<close>: \<^verbatim>\<open>None\<close>, a bool, a number, a string, a list or a
  dict with string keys. \<open>JObj\<close> lists a dict's items in insertion order; the keys of
  a Python dict are distinct, and \<open>map_of\<close> reads them. Numbers are integers (JSON reals
  are left out), and a string is a list of characters with the codes 0 to 255, read
  as the code points U+0000 to U+00FF; text with other characters is outside the model.
  Among these the digits of \<^verbatim>\<open>str.isdigit\<close> are \<open>0\<close> to \<open>9\<close> and the
  superscripts U+00B2, U+00B3 and U+00B9, the digits of the pattern \<^verbatim>\<open>\d\<close> are
  \<open>0\<close> to \<open>9\<close>, and \<^verbatim>\<open>repr\<close> escapes the characters that are not printable:
  the codes below 32, 127 to 160, and 173.

  An exception is a value: a computation that can raise returns \<open>py_error + 'a\<close>, with
  \<open>Inl\<close> the exception.
\<close>

datatype json =
  JNull
  | JBool bool
  | JInt int
  | JStr string
  | JArr "json list"
  | JObj "(string \<times> json) list"

datatype py_error = AttributeError | TypeError | KeyError | ZeroDivisionError

type_synonym 'a result = "py_error + 'a"

fun and_then :: "'a result \<Rightarrow> ('a \<Rightarrow> 'b result) \<Rightarrow> 'b result" where
  "and_then (Inl e) f = Inl e"
| "and_then (Inr x) f = f x"

text \<open>Truth value testing: \<^verbatim>\<open>if x\<close>, \<^verbatim>\<open>not x\<close>.\<close>

fun truthy :: "json \<Rightarrow> bool" where
  "truthy JNull = False"
| "truthy (JBool b) = b"
| "truthy (JInt i) = (i \<noteq> 0)"
| "truthy (JStr s) = (s \<noteq> [])"
| "truthy (JArr xs) = (xs \<noteq> [])"
| "truthy (JObj kvs) = (kvs \<noteq> [])"

text \<open>\<^verbatim>\<open>d.get(k)\<close>: only a dict has the method; a missing key reads as \<^verbatim>\<open>None\<close>.\<close>

fun dict_get :: "json \<Rightarrow> string \<Rightarrow> json result" where
  "dict_get (JObj kvs) k = Inr (case map_of kvs k of None \<Rightarrow> JNull | Some v \<Rightarrow> v)"
| "dict_get _ k = Inl AttributeError"

text \<open>\<^verbatim>\<open>d.get(k, default)\<close>: the default stands for a missing key only.\<close>

fun dict_get_default :: "json \<Rightarrow> string \<Rightarrow> json \<Rightarrow> json result" where
  "dict_get_default (JObj kvs) k d = Inr (case map_of kvs k of None \<Rightarrow> d | Some v \<Rightarrow> v)"
| "dict_get_default _ k d = Inl AttributeError"

text \<open>\<^verbatim>\<open>d[k]\<close> with a string \<open>k\<close>: a dict without the key raises KeyError, any
  other value raises TypeError (not subscriptable, or indices must be integers).\<close>

fun subscript :: "json \<Rightarrow> string \<Rightarrow> json result" where
  "subscript (JObj kvs) k = (case map_of kvs k of None \<Rightarrow> Inl KeyError | Some v \<Rightarrow> Inr v)"
| "subscript _ k = Inl TypeError"

text \<open>\<^verbatim>\<open>for x in v\<close>: a list gives its elements, a string its characters, a dict
  its keys; nothing else is iterable.\<close>

fun py_iter :: "json \<Rightarrow> json list result" where
  "py_iter (JArr xs) = Inr xs"
| "py_iter (JStr s) = Inr (map (\<lambda>c. JStr [c]) s)"
| "py_iter (JObj kvs) = Inr (map (\<lambda>kv. JStr (fst kv)) kvs)"
| "py_iter _ = Inl TypeError"

fun py_len :: "json \<Rightarrow> nat result" where
  "py_len (JArr xs) = Inr (length xs)"
| "py_len (JStr s) = Inr (length s)"
| "py_len (JObj kvs) = Inr (length kvs)"
| "py_len _ = Inl TypeError"

subsection \<open>Text of a value\<close>

fun join :: "string \<Rightarrow> string list \<Rightarrow> string" where
  "join sep [] = []"
| "join sep [x] = x"
| "join sep (x # y # ys) = x @ sep @ join sep (y # ys)"

fun str_of_nat :: "nat \<Rightarrow> string" where
  "str_of_nat n =
     (if n < 10 then [''0123456789'' ! n]
      else str_of_nat (n div 10) @ [''0123456789'' ! (n mod 10)])"

declare str_of_nat.simps [simp del]

definition str_of_int :: "int \<Rightarrow> string" where
  "str_of_int i = (if i < 0 then CHR ''-'' # str_of_nat (nat (- i)) else str_of_nat (nat i))"

text \<open>\<^verbatim>\<open>repr\<close> of a string: in single quotes, unless the string has a single quote
  and no double quote; the backslash and the quote are escaped, the characters that are
  not printable are written \<^verbatim>\<open>\t\<close>, \<^verbatim>\<open>\n\<close>, \<^verbatim>\<open>\r\<close> or \<^verbatim>\<open>\xNN\<close>.\<close>

definition repr_char :: "char \<Rightarrow> char \<Rightarrow> string" where
  "repr_char q c =
     (if c = q \<or> c = CHR 0x5C then [CHR 0x5C, c]
      else if c = CHR 0x09 then [CHR 0x5C, CHR ''t'']
      else if c = CHR 0x0A then [CHR 0x5C, CHR ''n'']
      else if c = CHR 0x0D then [CHR 0x5C, CHR ''r'']
      else if (of_char c :: nat) < 32 \<or> (127 \<le> (of_char c :: nat) \<and> (of_char c :: nat) \<le> 160)
              \<or> (of_char c :: nat) = 173
        then [CHR 0x5C, CHR ''x'',
              ''0123456789abcdef'' ! ((of_char c :: nat) div 16),
              ''0123456789abcdef'' ! ((of_char c :: nat) mod 16)]
      else [c])"

definition repr_str :: "string \<Rightarrow> string" where
  "repr_str s =
     (let q = (if CHR 0x27 \<in> set s \<and> CHR 0x22 \<notin> set s then CHR 0x22 else CHR 0x27)
      in [q] @ concat (map (repr_char q) s) @ [q])"

fun py_repr :: "json \<Rightarrow> string" where
  "py_repr JNull = ''None''"
| "py_repr (JBool b) = (if b then ''True'' else ''False'')"
| "py_repr (JInt i) = str_of_int i"
| "py_repr (JStr s) = repr_str s"
| "py_repr (JArr xs) = ''['' @ join '', '' (map py_repr xs) @ '']''"
| "py_repr (JObj kvs) =
     ''{'' @ join '', '' (map (\<lambda>kv. repr_str (fst kv) @ '': '' @ py_repr (snd kv)) kvs) @ ''}''"

text \<open>\<^verbatim>\<open>str(v)\<close>, which is what \<^verbatim>\<open>f"{v}"\<close> inserts.\<close>

fun py_str :: "json \<Rightarrow> string" where
  "py_str (JStr s) = s"
| "py_str v = py_repr v"

subsection \<open>String methods\<close>

text \<open>\<^verbatim>\<open>s.isdigit()\<close>: the string is not empty and all its characters are
  digits, the superscript digits among them.\<close>

definition isdigit :: "string \<Rightarrow> bool" where
  "isdigit s =
     (s \<noteq> [] \<and> list_all (\<lambda>c. c \<in> set ''0123456789'' \<or> c \<in> {CHR 0xB2, CHR 0xB3, CHR 0xB9}) s)"

text \<open>\<^verbatim>\<open>sub in s\<close> for strings.\<close>

fun contains :: "string \<Rightarrow> string \<Rightarrow> bool" where
  "contains sub [] = (sub = [])"
| "contains sub (c # cs) = (prefix sub (c # cs) \<or> contains sub cs)"

text \<open>\<^verbatim>\<open>s.replace(old, new)\<close>: the occurrences of \<open>old\<close> are taken from the
  left and do not overlap.\<close>

function str_replace :: "string \<Rightarrow> string \<Rightarrow> string \<Rightarrow> string" where
  "str_replace old new [] = (if old = [] then new else [])"
| "str_replace old new (c # cs) =
     (if old = [] then new @ c # str_replace old new cs
      else if prefix old (c # cs) then new @ str_replace old new (drop (length old) (c # cs))
      else c # str_replace old new cs)"
  by pat_completeness auto
termination
  by (relation "measure (\<lambda>(old, new, s). length s)") auto

text \<open>\<^verbatim>\<open>re.search(r'/(\d+)\.jpg', s)\<close> and its group 1: the leftmost slash that a
  run of digits and then \<^verbatim>\<open>.jpg\<close> follow. The run is the longest one, since a shorter
  one is followed by a digit.\<close>

fun search_jpg :: "string \<Rightarrow> string option" where
  "search_jpg [] = None"
| "search_jpg (c # cs) =
     (if c = CHR ''/'' \<and> takeWhile (\<lambda>d. d \<in> set ''0123456789'') cs \<noteq> []
         \<and> prefix ''.jpg'' (dropWhile (\<lambda>d. d \<in> set ''0123456789'') cs)
      then Some (takeWhile (\<lambda>d. d \<in> set ''0123456789'') cs)
      else search_jpg cs)"

section \<open>The header builder\<close>

text \<open>\<^verbatim>\<open>extract_tmdb_from_poster\<close>. The membership test
  \<^verbatim>\<open>'tmdb.org' not in poster_url\<close> is a substring test on a string, an element test
  on a list and a key test on a dict, and raises on a number; \<^verbatim>\<open>re.search\<close> raises
  on anything but a string.\<close>

fun extract_tmdb_from_poster :: "json \<Rightarrow> string option result" where
  "extract_tmdb_from_poster (JStr s) =
     (if s = [] \<or> \<not> contains ''tmdb.org'' s then Inr None else Inr (search_jpg s))"
| "extract_tmdb_from_poster (JArr xs) =
     (if xs = [] \<or> JStr ''tmdb.org'' \<notin> set xs then Inr None else Inl TypeError)"
| "extract_tmdb_from_poster (JObj kvs) =
     (if kvs = [] \<or> ''tmdb.org'' \<notin> fst ` set kvs then Inr None else Inl TypeError)"
| "extract_tmdb_from_poster (JInt i) = (if i = 0 then Inr None else Inl TypeError)"
| "extract_tmdb_from_poster (JBool b) = (if \<not> b then Inr None else Inl TypeError)"
| "extract_tmdb_from_poster JNull = Inr None"

text \<open>The local \<^verbatim>\<open>tmdb_id\<close> of \<^verbatim>\<open>create_extinf\<close>, as it stands before the test
  \<^verbatim>\<open>if tmdb_id\<close>. \<open>own_id\<close> is the first branch: \<open>Some\<close> the replaced identifier
  when the branch is taken, \<open>None\<close> when control goes on to the \<^verbatim>\<open>elif\<close>. A truthy
  \<^verbatim>\<open>id\<close> that is not a string has no \<^verbatim>\<open>startswith\<close>.\<close>

definition own_id :: "json \<Rightarrow> string option result" where
  "own_id ident =
     (if \<not> truthy ident then Inr None
      else case ident of
        JStr s \<Rightarrow>
          Inr (if prefix ''tt'' s \<or> isdigit s then Some (str_replace ''tt'' [] s) else None)
      | _ \<Rightarrow> Inl AttributeError)"

definition tmdb_id :: "json \<Rightarrow> string option result" where
  "tmdb_id item =
     and_then (dict_get item ''id'') (\<lambda>ident.
     and_then (own_id ident) (\<lambda>own.
       case own of
         Some t \<Rightarrow> Inr (Some t)
       | None \<Rightarrow>
           and_then (dict_get item ''poster'') (\<lambda>poster.
             if truthy poster then extract_tmdb_from_poster poster else Inr None)))"

definition display_title :: "json \<Rightarrow> json \<Rightarrow> string" where
  "display_title name year =
     (if truthy year then py_str name @ '' ('' @ py_str year @ '')'' else py_str name)"

text \<open>The list \<^verbatim>\<open>parts\<close> when \<^verbatim>\<open>create_extinf\<close> reaches its \<^verbatim>\<open>return\<close>.\<close>

definition extinf_parts :: "json \<Rightarrow> string \<Rightarrow> string list result" where
  "extinf_parts item content_type =
     and_then (tmdb_id item) (\<lambda>tid.
     and_then (dict_get_default item ''name'' (JStr ''Unknown'')) (\<lambda>name.
     and_then (dict_get item ''poster'') (\<lambda>poster.
       Inr ([''#EXTINF:-1'']
            @ (case tid of
                 Some t \<Rightarrow> if t \<noteq> [] then [''tvg-id=\"'' @ t @ ''\"''] else []
               | None \<Rightarrow> [])
            @ [''tvg-name=\"'' @ py_str name @ ''\"'']
            @ (if truthy poster then [''tvg-logo=\"'' @ py_str poster @ ''\"''] else [])
            @ [''group-title=\"''
                 @ (if content_type = ''series'' then ''Series'' else ''Movies'') @ ''\"'']))))"

definition create_extinf :: "json \<Rightarrow> string \<Rightarrow> string result" where
  "create_extinf item content_type =
     and_then (extinf_parts item content_type) (\<lambda>parts.
     and_then (dict_get_default item ''name'' (JStr ''Unknown'')) (\<lambda>name.
     and_then (dict_get item ''year'') (\<lambda>year.
       Inr (join '' '' parts @ '', '' @ display_title name year))))"

section \<open>The pipeline of \<^verbatim>\<open>main\<close>\<close>

text \<open>
  An entry of \<^verbatim>\<open>all_entries\<close> is the pair \<^verbatim>\<open>(extinf, url)\<close>; the url is
  whatever value the stream record holds.

  \<^verbatim>\<open>fetch_json\<close> catches every exception of its own and returns the decoded
  document or \<^verbatim>\<open>None\<close>, so it is a function from the url and the state of the
  network to a value and the next state; \<open>JNull\<close> is the absent result. The network
  is a parameter of the model. What the script prints is left out, but for the
  numbers of the summary.
\<close>

type_synonym entry = "string \<times> json"

type_synonym 'w fetcher = "string \<Rightarrow> 'w \<Rightarrow> json \<times> 'w"

text \<open>A \<^verbatim>\<open>for\<close> loop whose body can raise: the first exception ends it.\<close>

fun for_each :: "('a \<Rightarrow> 's \<Rightarrow> 's result) \<Rightarrow> 'a list \<Rightarrow> 's \<Rightarrow> 's result" where
  "for_each body [] s = Inr s"
| "for_each body (x # xs) s = and_then (body x s) (for_each body xs)"

subsection \<open>Source 1: the static catalog\<close>

definition domestic_categories :: "string list" where
  "domestic_categories =
     [''EX YU FILMOVI'', ''EX YU SERIJE'', ''EXYU SERIJE'', ''EXYU SERIJE KOJE SE EMITUJU'',
      ''KLIK PREMIJERA'', ''KLASICI'', ''FILMSKI KLASICI'', ''Bolji Zivot'', ''Bela Ladja'',
      ''Policajac Sa Petlovog Brda'', ''Slatke Muke'']"

text \<open>The loop \<^verbatim>\<open>for stream in item['streams']\<close> of source 1: the header is built
  anew for each stream, and \<^verbatim>\<open>stream['url']\<close> is a subscript.\<close>

fun stream_loop :: "json \<Rightarrow> string \<Rightarrow> json list \<Rightarrow> entry list \<Rightarrow> entry list result" where
  "stream_loop item content_type [] all_entries = Inr all_entries"
| "stream_loop item content_type (stream # rest) all_entries =
     and_then (create_extinf item content_type) (\<lambda>extinf.
     and_then (subscript stream ''url'') (\<lambda>url.
       stream_loop item content_type rest (all_entries @ [(extinf, url)])))"

text \<open>The body of \<^verbatim>\<open>for movie in ...\<close>, on \<^verbatim>\<open>all_entries\<close> and
  \<^verbatim>\<open>movie_count\<close>. \<^verbatim>\<open>movie['streams']\<close> is read once \<^verbatim>\<open>movie.get('streams')\<close>
  is truthy, so it is that value.\<close>

fun movie_step :: "json \<Rightarrow> entry list \<times> nat \<Rightarrow> (entry list \<times> nat) result" where
  "movie_step movie (all_entries, movie_count) =
     and_then (dict_get movie ''category'') (\<lambda>category.
       if category \<notin> set (map JStr domestic_categories) then Inr (all_entries, movie_count)
       else and_then (dict_get movie ''streams'') (\<lambda>streams.
         if truthy streams then
           and_then (py_iter streams) (\<lambda>ss.
           and_then (stream_loop movie ''movie'' ss all_entries) (\<lambda>all_entries'.
             Inr (all_entries', movie_count + 1)))
         else Inr (all_entries, movie_count)))"

fun series_step :: "json \<Rightarrow> entry list \<times> nat \<Rightarrow> (entry list \<times> nat) result" where
  "series_step series (all_entries, series_count) =
     and_then (dict_get series ''streams'') (\<lambda>streams.
       if truthy streams then
         and_then (py_iter streams) (\<lambda>ss.
         and_then (stream_loop series ''series'' ss all_entries) (\<lambda>all_entries'.
           Inr (all_entries', series_count + 1)))
       else Inr (all_entries, series_count))"

text \<open>The block \<^verbatim>\<open>if baubau_data:\<close>; the result is \<^verbatim>\<open>all_entries\<close>,
  \<^verbatim>\<open>movie_count\<close> and \<^verbatim>\<open>series_count\<close>. Nothing catches an exception here.\<close>

definition static_catalog :: "json \<Rightarrow> entry list \<Rightarrow> (entry list \<times> nat \<times> nat) result" where
  "static_catalog baubau_data all_entries =
     (if \<not> truthy baubau_data then Inr (all_entries, 0, 0)
      else
        and_then (dict_get_default baubau_data ''movies'' (JArr [])) (\<lambda>movies.
        and_then (py_iter movies) (\<lambda>ms.
        and_then (for_each movie_step ms (all_entries, 0)) (\<lambda>(entries1, movie_count).
        and_then (dict_get_default baubau_data ''series'' (JArr [])) (\<lambda>series.
        and_then (py_iter series) (\<lambda>ss.
        and_then (for_each series_step ss (entries1, 0)) (\<lambda>(entries2, series_count).
          Inr (entries2, movie_count, series_count))))))))"

subsection \<open>Sources 2 and 3: the paginated catalogs\<close>

definition catalog_url :: "string \<Rightarrow> string \<Rightarrow> nat \<Rightarrow> string" where
  "catalog_url kind catalog skip =
     ''https://domaci-flixx.vercel.app/catalog/'' @ kind @ ''/'' @ catalog
       @ ''/skip='' @ str_of_nat skip @ ''.json''"

definition meta_url :: "string \<Rightarrow> json \<Rightarrow> string" where
  "meta_url kind meta_id =
     ''https://domaci-flixx.vercel.app/meta/'' @ kind @ ''/'' @ py_str meta_id @ ''.json''"

definition stream_url :: "string \<Rightarrow> json \<Rightarrow> string" where
  "stream_url kind ident =
     ''https://domaci-flixx.vercel.app/stream/'' @ kind @ ''/'' @ py_str ident @ ''.json''"

text \<open>
  Inside \<^verbatim>\<open>try: ... except: pass\<close> an exception ends the body and is dropped, and
  what the body did before stays done: the entries appended and the requests made. A
  body is a function to the exception it ended with, if any, and the state it left.
  \<open>attempt r s k\<close> is a step that changes no state and may raise.
\<close>

type_synonym 's tried = "py_error option \<times> 's"

definition attempt :: "'a result \<Rightarrow> 's \<Rightarrow> ('a \<Rightarrow> 's tried) \<Rightarrow> 's tried" where
  "attempt r s k = (case r of Inl e \<Rightarrow> (Some e, s) | Inr v \<Rightarrow> k v)"

text \<open>\<^verbatim>\<open>for stream in stream_data['streams']: if stream.get('url'): ...\<close>\<close>

fun url_stream_loop :: "json \<Rightarrow> string \<Rightarrow> json list \<Rightarrow> entry list \<Rightarrow> entry list tried" where
  "url_stream_loop item content_type [] all_entries = (None, all_entries)"
| "url_stream_loop item content_type (stream # rest) all_entries =
     attempt (dict_get stream ''url'') all_entries (\<lambda>url.
       if truthy url then
         attempt (create_extinf item content_type) all_entries (\<lambda>extinf.
           url_stream_loop item content_type rest (all_entries @ [(extinf, url)]))
       else url_stream_loop item content_type rest all_entries)"

text \<open>\<^verbatim>\<open>if stream_data and stream_data.get('streams'): for stream in ...\<close>\<close>

definition emit_streams :: "json \<Rightarrow> string \<Rightarrow> json \<Rightarrow> entry list \<Rightarrow> entry list tried" where
  "emit_streams item content_type stream_data all_entries =
     (if \<not> truthy stream_data then (None, all_entries)
      else
        attempt (dict_get stream_data ''streams'') all_entries (\<lambda>streams.
          if \<not> truthy streams then (None, all_entries)
          else
            attempt (py_iter streams) all_entries (\<lambda>ss.
              url_stream_loop item content_type ss all_entries)))"

text \<open>The body of the \<^verbatim>\<open>try\<close> of source 2, for one \<^verbatim>\<open>meta_id\<close>.\<close>

definition movie_meta_body :: "'w fetcher \<Rightarrow> json \<Rightarrow> entry list \<times> 'w \<Rightarrow> (entry list \<times> 'w) tried" where
  "movie_meta_body fetch_json meta_id s =
     (case s of (all_entries, w) \<Rightarrow>
      case fetch_json (meta_url ''movie'' meta_id) w of (meta_detail, w1) \<Rightarrow>
        if \<not> truthy meta_detail then (None, (all_entries, w1))
        else
          attempt (dict_get meta_detail ''meta'') (all_entries, w1) (\<lambda>item.
            if \<not> truthy item then (None, (all_entries, w1))
            else
              case fetch_json (stream_url ''movie'' meta_id) w1 of (stream_data, w2) \<Rightarrow>
              case emit_streams item ''movie'' stream_data all_entries of (raised, all_entries') \<Rightarrow>
                (raised, (all_entries', w2))))"

text \<open>The body of \<^verbatim>\<open>for meta in metas\<close>: \<^verbatim>\<open>meta.get('id', '')\<close> stands before
  the \<^verbatim>\<open>try\<close>.\<close>

definition movie_meta_step :: "'w fetcher \<Rightarrow> json \<Rightarrow> entry list \<times> 'w \<Rightarrow> (entry list \<times> 'w) result" where
  "movie_meta_step fetch_json meta s =
     and_then (dict_get_default meta ''id'' (JStr [])) (\<lambda>meta_id.
       if truthy meta_id then Inr (snd (movie_meta_body fetch_json meta_id s)) else Inr s)"

text \<open>Source 3: one episode stub of \<^verbatim>\<open>item['videos']\<close>, the loop over the stubs
  and the body of the \<^verbatim>\<open>try\<close> around it.\<close>

definition episode_step :: "'w fetcher \<Rightarrow> json \<Rightarrow> json \<Rightarrow> entry list \<times> 'w \<Rightarrow> (entry list \<times> 'w) tried" where
  "episode_step fetch_json item video s =
     (case s of (all_entries, w) \<Rightarrow>
      attempt (dict_get_default video ''id'' (JStr [])) (all_entries, w) (\<lambda>video_id.
        if \<not> truthy video_id then (None, (all_entries, w))
        else
          case fetch_json (stream_url ''series'' video_id) w of (stream_data, w1) \<Rightarrow>
          case emit_streams item ''series'' stream_data all_entries of (raised, all_entries') \<Rightarrow>
            (raised, (all_entries', w1))))"

fun episodes_loop :: "'w fetcher \<Rightarrow> json \<Rightarrow> json list \<Rightarrow> entry list \<times> 'w \<Rightarrow> (entry list \<times> 'w) tried" where
  "episodes_loop fetch_json item [] s = (None, s)"
| "episodes_loop fetch_json item (video # rest) s =
     (case episode_step fetch_json item video s of
        (None, s') \<Rightarrow> episodes_loop fetch_json item rest s'
      | (Some e, s') \<Rightarrow> (Some e, s'))"

definition series_meta_body :: "'w fetcher \<Rightarrow> json \<Rightarrow> entry list \<times> 'w \<Rightarrow> (entry list \<times> 'w) tried" where
  "series_meta_body fetch_json meta_id s =
     (case s of (all_entries, w) \<Rightarrow>
      case fetch_json (meta_url ''series'' meta_id) w of (meta_detail, w1) \<Rightarrow>
        if \<not> truthy meta_detail then (None, (all_entries, w1))
        else
          attempt (dict_get meta_detail ''meta'') (all_entries, w1) (\<lambda>item.
            if \<not> truthy item then (None, (all_entries, w1))
            else
              attempt (dict_get item ''videos'') (all_entries, w1) (\<lambda>videos.
                if \<not> truthy videos then (None, (all_entries, w1))
                else
                  attempt (py_iter videos) (all_entries, w1) (\<lambda>vs.
                    episodes_loop fetch_json item vs (all_entries, w1)))))"

definition series_meta_step :: "'w fetcher \<Rightarrow> json \<Rightarrow> entry list \<times> 'w \<Rightarrow> (entry list \<times> 'w) result" where
  "series_meta_step fetch_json meta s =
     and_then (dict_get_default meta ''id'' (JStr [])) (\<lambda>meta_id.
       if truthy meta_id then Inr (snd (series_meta_body fetch_json meta_id s)) else Inr s)"

text \<open>
  One turn of \<^verbatim>\<open>while True\<close>, on \<^verbatim>\<open>skip\<close>, the running count, \<^verbatim>\<open>all_entries\<close>
  and the network: it ends in \<^verbatim>\<open>break\<close>, goes on to the next turn, or raises. The
  two loops differ in the url of the catalog and in the body run for each meta.
  When \<^verbatim>\<open>metas = ...['metas']\<close> is read it is truthy, so the second
  \<^verbatim>\<open>if not metas: break\<close> is never taken.
\<close>

datatype 's turn = Break 's | Continue 's

type_synonym 'w pager = "nat \<times> nat \<times> entry list \<times> 'w"

definition page_turn ::
  "(nat \<Rightarrow> string) \<Rightarrow> (json \<Rightarrow> entry list \<times> 'w \<Rightarrow> (entry list \<times> 'w) result) \<Rightarrow> 'w fetcher
     \<Rightarrow> 'w pager \<Rightarrow> 'w pager turn result" where
  "page_turn url_of meta_step fetch_json s =
     (case s of (skip, loaded, all_entries, w) \<Rightarrow>
      case fetch_json (url_of skip) w of (page, w1) \<Rightarrow>
        if \<not> truthy page then Inr (Break (skip, loaded, all_entries, w1))
        else
          and_then (dict_get page ''metas'') (\<lambda>metas.
            if \<not> truthy metas then Inr (Break (skip, loaded, all_entries, w1))
            else
              and_then (py_len metas) (\<lambda>n.
              and_then (py_iter metas) (\<lambda>ms.
              and_then (for_each meta_step ms (all_entries, w1)) (\<lambda>(all_entries', w2).
                Inr (Continue (skip + 100, loaded + n, all_entries', w2)))))))"

text \<open>The loop itself. It may run forever: \<open>None\<close> is the run that never leaves the
  loop, \<open>Some (Inl e)\<close> the one an exception ends, \<open>Some (Inr s)\<close> the one that
  reaches \<^verbatim>\<open>break\<close> in state \<open>s\<close>.\<close>

partial_function (option) paginate :: "('s \<Rightarrow> 's turn result) \<Rightarrow> 's \<Rightarrow> 's result option" where
  "paginate turn s =
     (case turn s of
        Inl e \<Rightarrow> Some (Inl e)
      | Inr (Break s') \<Rightarrow> Some (Inr s')
      | Inr (Continue s') \<Rightarrow> paginate turn s')"

definition movies_turn :: "'w fetcher \<Rightarrow> 'w pager \<Rightarrow> 'w pager turn result" where
  "movies_turn fetch_json =
     page_turn (catalog_url ''movie'' ''domaci_filmovi'') (movie_meta_step fetch_json) fetch_json"

definition series_turn :: "'w fetcher \<Rightarrow> 'w pager \<Rightarrow> 'w pager turn result" where
  "series_turn fetch_json =
     page_turn (catalog_url ''series'' ''domaci_serije'') (series_meta_step fetch_json) fetch_json"

text \<open>The two loops as \<^verbatim>\<open>main\<close> enters them: \<^verbatim>\<open>skip = 0\<close> and a count of 0.\<close>

definition domaci_movies :: "'w fetcher \<Rightarrow> entry list \<times> 'w \<Rightarrow> 'w pager result option" where
  "domaci_movies fetch_json s = paginate (movies_turn fetch_json) (0, 0, fst s, snd s)"

definition domaci_series :: "'w fetcher \<Rightarrow> entry list \<times> 'w \<Rightarrow> 'w pager result option" where
  "domaci_series fetch_json s = paginate (series_turn fetch_json) (0, 0, fst s, snd s)"

text \<open>To speak of the \<open>k\<close>-th page: the state in which the loop starts its turn
  number \<open>k\<close>, when the \<open>k\<close> turns before it all went on to the next page, and
  \<open>None\<close> when one of them ended the loop.\<close>

fun turns :: "('s \<Rightarrow> 's turn result) \<Rightarrow> nat \<Rightarrow> 's \<Rightarrow> 's option" where
  "turns turn 0 s = Some s"
| "turns turn (Suc k) s =
     (case turn s of Inr (Continue s') \<Rightarrow> turns turn k s' | _ \<Rightarrow> None)"

subsection \<open>Removing duplicates\<close>

text \<open>
  \<^verbatim>\<open>seen_urls\<close> is a Python set: a list or a dict cannot be hashed, and
  \<^verbatim>\<open>True\<close> and \<^verbatim>\<open>False\<close> are the same elements as 1 and 0. \<open>set_key\<close> is the
  element a value is in the set; on a string it is the string.
\<close>

fun hashable :: "json \<Rightarrow> bool" where
  "hashable (JArr xs) = False"
| "hashable (JObj kvs) = False"
| "hashable v = True"

fun set_key :: "json \<Rightarrow> json" where
  "set_key (JBool b) = JInt (if b then 1 else 0)"
| "set_key v = v"

fun dedup_loop :: "entry list \<Rightarrow> json set \<Rightarrow> entry list \<Rightarrow> entry list result" where
  "dedup_loop [] seen_urls unique_entries = Inr unique_entries"
| "dedup_loop ((extinf, url) # rest) seen_urls unique_entries =
     (if \<not> hashable url then Inl TypeError
      else if set_key url \<notin> seen_urls
        then dedup_loop rest (insert (set_key url) seen_urls) (unique_entries @ [(extinf, url)])
      else dedup_loop rest seen_urls unique_entries)"

definition remove_duplicates :: "entry list \<Rightarrow> entry list result" where
  "remove_duplicates all_entries = dedup_loop all_entries {} []"

subsection \<open>The file and the summary\<close>

text \<open>The text of \<^verbatim>\<open>channels/balkan_vod_repos.m3u\<close>: each \<^verbatim>\<open>f.write\<close> appends
  to it. That the file cannot be opened or written is not modelled.\<close>

fun write_entries :: "entry list \<Rightarrow> string \<Rightarrow> string" where
  "write_entries [] f = f"
| "write_entries ((extinf, url) # rest) f =
     write_entries rest ((f @ extinf @ [CHR 0x0A]) @ py_str url @ [CHR 0x0A])"

definition m3u_file :: "entry list \<Rightarrow> string" where
  "m3u_file unique_entries = write_entries unique_entries (''#EXTM3U'' @ [CHR 0x0A])"

text \<open>\<^verbatim>\<open>sum(1 for e, _ in unique_entries if marker in e)\<close>\<close>

definition count_with :: "string \<Rightarrow> entry list \<Rightarrow> int" where
  "count_with marker unique_entries =
     int (length (filter (\<lambda>entry. contains marker (fst entry)) unique_entries))"

text \<open>\<^verbatim>\<open>a // b\<close> on integers.\<close>

definition floordiv :: "int \<Rightarrow> int \<Rightarrow> int result" where
  "floordiv a b = (if b = 0 then Inl ZeroDivisionError else Inr (a div b))"

text \<open>\<^verbatim>\<open>with_tmdb * 100 // len(unique_entries) if unique_entries else 0\<close>\<close>

definition tmdb_percent :: "entry list \<Rightarrow> int result" where
  "tmdb_percent unique_entries =
     (if unique_entries \<noteq> []
      then floordiv (count_with ''tvg-id=\"'' unique_entries * 100) (int (length unique_entries))
      else Inr 0)"

record summary =
  total :: int
  movies :: int
  series :: int
  with_tmdb :: int
  percent :: int

definition statistics :: "entry list \<Rightarrow> summary result" where
  "statistics unique_entries =
     and_then (tmdb_percent unique_entries) (\<lambda>p.
       Inr \<lparr> total = int (length unique_entries),
             movies = count_with ''group-title=\"Movies\"'' unique_entries,
             series = count_with ''group-title=\"Series\"'' unique_entries,
             with_tmdb = count_with ''tvg-id=\"'' unique_entries,
             percent = p \<rparr>)"

subsection \<open>\<^verbatim>\<open>main\<close>\<close>

definition baubau_url :: string where
  "baubau_url =
     ''https://raw.githubusercontent.com/Zerr0-C00L/Balkan-On-Demand/main/data/baubau-content-full-backup.json''"

text \<open>The run: the file written and the summary printed, with the network as the
  run leaves it; \<open>None\<close> when a paginated loop never ends.\<close>

definition main :: "'w fetcher \<Rightarrow> 'w \<Rightarrow> ((string \<times> summary) \<times> 'w) result option" where
  "main fetch_json w0 =
     (case fetch_json baubau_url w0 of (baubau_data, w1) \<Rightarrow>
      (case static_catalog baubau_data [] of
        Inl e \<Rightarrow> Some (Inl e)
      | Inr (entries1, movie_count, series_count) \<Rightarrow>
          (case domaci_movies fetch_json (entries1, w1) of
             None \<Rightarrow> None
           | Some (Inl e) \<Rightarrow> Some (Inl e)
           | Some (Inr (skip2, domaci_movie_count, entries2, w2)) \<Rightarrow>
               (case domaci_series fetch_json (entries2, w2) of
                  None \<Rightarrow> None
                | Some (Inl e) \<Rightarrow> Some (Inl e)
                | Some (Inr (skip3, domaci_series_count, all_entries, w3)) \<Rightarrow>
                    Some (and_then (remove_duplicates all_entries) (\<lambda>unique_entries.
                          and_then (statistics unique_entries) (\<lambda>stats.
                            Inr ((m3u_file unique_entries, stats), w3))))))))"

subsection \<open>Lines of a text\<close>

text \<open>To speak of the lines of the file: the text is cut after each newline, and a
  last line without a newline counts when it is not empty. \<open>ext_headers\<close> holds of
  entries whose headers all begin with the prefix token of a header line.\<close>

fun split_lines :: "string \<Rightarrow> string \<Rightarrow> string list" where
  "split_lines cur [] = (if cur = [] then [] else [cur])"
| "split_lines cur (c # cs) =
     (if c = CHR 0x0A then cur # split_lines [] cs else split_lines (cur @ [c]) cs)"

definition text_lines :: "string \<Rightarrow> string list" where
  "text_lines f = split_lines [] f"

definition ext_headers :: "entry list \<Rightarrow> bool" where
  "ext_headers es = list_all (\<lambda>p. prefix ''#EXTINF:-1 '' (fst p)) es"

subsection \<open>Two small networks\<close>



definition sample_catalog :: json where
  "sample_catalog =
     JObj [(''movies'',
            JArr [JObj [(''id'', JStr ''tt123''), (''name'', JStr ''Film''),
                        (''category'', JStr ''EX YU FILMOVI''),
                        (''streams'', JArr [JObj [(''url'', JStr ''http://a'')],
                                            JObj [(''url'', JStr ''http://b'')]])]]),
           (''series'',
            JArr [JObj [(''name'', JStr ''Serija''),
                        (''streams'', JArr [JObj [(''url'', JStr ''http://a'')]])]])]"

definition sample_net :: "unit fetcher" where
  "sample_net u w = (if u = baubau_url then sample_catalog else JNull, w)"

definition catalog_net :: "json \<Rightarrow> unit fetcher" where
  "catalog_net catalog u w = (if u = baubau_url then catalog else JNull, w)"

definition mixed_catalog :: json where
  "mixed_catalog =
     JObj [(''movies'',
            JArr [JObj [(''name'', JStr ''Strani''), (''category'', JStr ''Drugo''),
                        (''streams'', JArr [JObj [(''url'', JStr ''http://d'')]])],
                  JObj [(''name'', JStr ''Film''), (''category'', JStr ''EX YU FILMOVI''),
                        (''streams'', JArr [JObj [(''url'', JStr ''http://a'')]])]])]"

definition twin_catalog :: json where
  "twin_catalog =
     JObj [(''movies'',
            JArr [JObj [(''name'', JStr ''Film''), (''category'', JStr ''EX YU FILMOVI''),
                        (''streams'', JArr [JObj [(''url'', JStr ''http://a'')],
                                            JObj [(''url'', JStr ''http://a'')]])]])]"

definition newline_catalog :: json where
  "newline_catalog =
     JObj [(''movies'',
            JArr [JObj [(''name'', JStr (''A'' @ [CHR 0x0A] @ ''B'')),
                        (''category'', JStr ''EX YU FILMOVI''),
                        (''streams'', JArr [JObj [(''url'', JStr ''http://a'')]])]])]"

definition number_catalog :: json where
  "number_catalog =
     JObj [(''movies'',
            JArr [JObj [(''name'', JStr ''Film''), (''category'', JStr ''EX YU FILMOVI''),
                        (''streams'', JArr [JObj [(''url'', JInt 1)],
                                            JObj [(''url'', JStr ''1'')]])]])]"

section \<open>The header line\<close>

text \<open>Facts about the string methods and the header builder that the claims on the
  header share.\<close>

lemma str_replace_no_occurrence:
  "old \<noteq> [] \<Longrightarrow> \<not> contains old s \<Longrightarrow> str_replace old new s = s"
  by (induction s) auto

lemma str_replace_prefix:
  "old \<noteq> [] \<Longrightarrow> str_replace old new (old @ s) = new @ str_replace old new s"
  by (cases old) auto

lemma contains_tt_has_t: "contains ''tt'' s \<Longrightarrow> CHR ''t'' \<in> set s"
  by (induction s) auto

lemma isdigit_no_t:
  assumes "isdigit s"
  shows "CHR ''t'' \<notin> set s"
proof
  assume "CHR ''t'' \<in> set s"
  moreover have "\<forall>c\<in>set s. c \<in> set ''0123456789'' \<or> c \<in> {CHR 0xB2, CHR 0xB3, CHR 0xB9}"
    using assms by (simp add: isdigit_def list_all_iff)
  ultimately have "CHR ''t'' \<in> set ''0123456789'' \<or> CHR ''t'' \<in> {CHR 0xB2, CHR 0xB3, CHR 0xB9}"
    by blast
  then show False by simp
qed

lemma isdigit_no_tt: "isdigit s \<Longrightarrow> \<not> contains ''tt'' s"
  using contains_tt_has_t isdigit_no_t by blast

lemma own_id_tt:
  assumes "rest \<noteq> []" "\<not> contains ''tt'' rest"
  shows "own_id (JStr (''tt'' @ rest)) = Inr (Some rest)"
proof -
  have "str_replace ''tt'' [] (''tt'' @ rest) = rest"
    using str_replace_prefix[of "''tt''" "[]" rest] str_replace_no_occurrence[of "''tt''" rest "[]"] assms
    by simp
  then show ?thesis by (simp add: own_id_def)
qed

lemma own_id_digits:
  assumes "isdigit s"
  shows "own_id (JStr s) = Inr (Some s)"
proof -
  have "str_replace ''tt'' [] s = s"
    using str_replace_no_occurrence[of "''tt''" s "[]"] isdigit_no_tt[OF assms] by simp
  moreover have "s \<noteq> []" using assms by (simp add: isdigit_def)
  ultimately show ?thesis using assms by (simp add: own_id_def)
qed

lemma dict_get_JObj: "dict_get item k = Inr v \<Longrightarrow> \<exists>kvs. item = JObj kvs"
  by (cases item) auto

lemma contains_self_append: "contains sub (sub @ b)"
  by (cases "sub @ b") (auto simp del: append_is_Nil_conv, metis prefixI)

lemma contains_append: "contains sub (a @ sub @ b)"
  by (induction a) (simp_all add: contains_self_append)

lemma tmdb_id_own:
  "dict_get item ''id'' = Inr ident \<Longrightarrow> own_id ident = Inr (Some t) \<Longrightarrow> tmdb_id item = Inr (Some t)"
  by (simp add: tmdb_id_def)

lemma extinf_parts_JObj:
  "extinf_parts (JObj kvs) ct =
     and_then (tmdb_id (JObj kvs)) (\<lambda>tid.
       Inr ([''#EXTINF:-1'']
            @ (case tid of
                 Some t \<Rightarrow> if t \<noteq> [] then [''tvg-id=\"'' @ t @ ''\"''] else []
               | None \<Rightarrow> [])
            @ [''tvg-name=\"''
                 @ py_str (case map_of kvs ''name'' of None \<Rightarrow> JStr ''Unknown'' | Some v \<Rightarrow> v)
                 @ ''\"'']
            @ (if truthy (case map_of kvs ''poster'' of None \<Rightarrow> JNull | Some v \<Rightarrow> v)
               then [''tvg-logo=\"''
                       @ py_str (case map_of kvs ''poster'' of None \<Rightarrow> JNull | Some v \<Rightarrow> v)
                       @ ''\"'']
               else [])
            @ [''group-title=\"'' @ (if ct = ''series'' then ''Series'' else ''Movies'') @ ''\"'']))"
  by (simp add: extinf_parts_def)

text \<open>The header line, field by field.\<close>

lemma create_extinf_JObj:
  "create_extinf (JObj kvs) ct =
     and_then (tmdb_id (JObj kvs)) (\<lambda>tid.
       Inr (''#EXTINF:-1''
            @ (case tid of
                 Some t \<Rightarrow> if t \<noteq> [] then '' tvg-id=\"'' @ t @ ''\"'' else []
               | None \<Rightarrow> [])
            @ '' tvg-name=\"''
            @ py_str (case map_of kvs ''name'' of None \<Rightarrow> JStr ''Unknown'' | Some v \<Rightarrow> v)
            @ ''\"''
            @ (if truthy (case map_of kvs ''poster'' of None \<Rightarrow> JNull | Some v \<Rightarrow> v)
               then '' tvg-logo=\"''
                      @ py_str (case map_of kvs ''poster'' of None \<Rightarrow> JNull | Some v \<Rightarrow> v)
                      @ ''\"''
               else [])
            @ '' group-title=\"'' @ (if ct = ''series'' then ''Series'' else ''Movies'') @ ''\"''
            @ '', ''
            @ display_title (case map_of kvs ''name'' of None \<Rightarrow> JStr ''Unknown'' | Some v \<Rightarrow> v)
                (case map_of kvs ''year'' of None \<Rightarrow> JNull | Some v \<Rightarrow> v)))"
proof (cases "tmdb_id (JObj kvs)")
  case (Inl e)
  then show ?thesis by (simp add: create_extinf_def extinf_parts_JObj)
next
  case (Inr tid)
  then show ?thesis
    by (cases tid) (simp_all add: create_extinf_def extinf_parts_JObj)
qed

lemma create_extinf_with_id:
  assumes "dict_get item ''id'' = Inr ident" "own_id ident = Inr (Some t)" "t \<noteq> []"
  shows "\<exists>tail. create_extinf item ct = Inr (''#EXTINF:-1 tvg-id=\"'' @ t @ ''\" tvg-name=\"'' @ tail)"
proof -
  from assms(1) obtain kvs where item: "item = JObj kvs" by (auto dest: dict_get_JObj)
  have "tmdb_id (JObj kvs) = Inr (Some t)"
    using tmdb_id_own[OF assms(1,2)] by (simp add: item)
  then show ?thesis
    using assms(3) by (simp add: item create_extinf_JObj)
qed

lemma create_extinf_Inr_JObj: "create_extinf item ct = Inr h \<Longrightarrow> \<exists>kvs. item = JObj kvs"
  by (cases item) (simp_all add: create_extinf_def extinf_parts_def tmdb_id_def)

lemma own_id_text: "ident = JNull \<or> (\<exists>s. ident = JStr s) \<Longrightarrow> \<exists>r. own_id ident = Inr r"
  by (auto simp: own_id_def)

lemma extract_text: "\<exists>r. extract_tmdb_from_poster (JStr s) = Inr r"
  by simp

lemma tmdb_id_returns:
  assumes "\<forall>v. map_of kvs ''id'' = Some v \<longrightarrow> v = JNull \<or> (\<exists>s. v = JStr s)"
      and "\<forall>v. map_of kvs ''poster'' = Some v \<longrightarrow> v = JNull \<or> (\<exists>s. v = JStr s)"
  shows "\<exists>tid. tmdb_id (JObj kvs) = Inr tid"
proof -
  let ?ident = "case map_of kvs ''id'' of None \<Rightarrow> JNull | Some v \<Rightarrow> v"
  let ?poster = "case map_of kvs ''poster'' of None \<Rightarrow> JNull | Some v \<Rightarrow> v"
  have "?ident = JNull \<or> (\<exists>s. ?ident = JStr s)"
    using assms(1) by (auto split: option.splits)
  then obtain r where r: "own_id ?ident = Inr r" using own_id_text by blast
  have p: "?poster = JNull \<or> (\<exists>s. ?poster = JStr s)"
    using assms(2) by (auto split: option.splits)
  show ?thesis
  proof (cases r)
    case (Some t)
    with r show ?thesis by (simp add: tmdb_id_def)
  next
    case None
    from p show ?thesis
    proof
      assume "?poster = JNull"
      with r None show ?thesis by (simp add: tmdb_id_def)
    next
      assume "\<exists>s. ?poster = JStr s"
      then obtain s where "?poster = JStr s" by blast
      with r None show ?thesis by (simp add: tmdb_id_def)
    qed
  qed
qed

lemma parts_no_empty_id:
  assumes "extinf_parts item ct = Inr ps"
  shows "''tvg-id=\"\"'' \<notin> set ps"
proof -
  from assms obtain kvs where item: "item = JObj kvs"
    by (cases item) (simp_all add: extinf_parts_def tmdb_id_def)
  from assms obtain tid where tid: "tmdb_id (JObj kvs) = Inr tid"
    by (cases "tmdb_id (JObj kvs)") (simp_all add: item extinf_parts_JObj)
  show ?thesis
  proof (cases tid)
    case None
    with assms tid show ?thesis by (auto simp: item extinf_parts_JObj)
  next
    case (Some t)
    with assms tid show ?thesis by (cases "t = []") (auto simp: item extinf_parts_JObj)
  qed
qed

text \<open>
  Claim C2, as amended. When the identifier of an item is a string that begins with
  \<open>tt\<close> and what follows the prefix is not empty and has no further \<open>tt\<close> in it,
  the header carries the field \<open>tvg-id\<close> right after the prefix token, and its value
  is the identifier without the prefix (\<open>tt123\<close> gives \<open>123\<close>, whatever the poster
  is). When the identifier is a non-empty string of digits, the value of the field is
  the identifier unchanged.
\<close>

theorem header_external_id:
  "(dict_get item ''id'' = Inr (JStr (''tt'' @ rest)) \<and> rest \<noteq> [] \<and> \<not> contains ''tt'' rest
      \<longrightarrow> (\<exists>tail. create_extinf item ct
                    = Inr (''#EXTINF:-1 tvg-id=\"'' @ rest @ ''\" tvg-name=\"'' @ tail)))
   \<and> (dict_get item ''id'' = Inr (JStr s) \<and> isdigit s
      \<longrightarrow> (\<exists>tail. create_extinf item ct
                    = Inr (''#EXTINF:-1 tvg-id=\"'' @ s @ ''\" tvg-name=\"'' @ tail)))"
proof (intro conjI impI)
  assume a: "dict_get item ''id'' = Inr (JStr (''tt'' @ rest)) \<and> rest \<noteq> [] \<and> \<not> contains ''tt'' rest"
  then have "own_id (JStr (''tt'' @ rest)) = Inr (Some rest)" by (intro own_id_tt) auto
  with a show "\<exists>tail. create_extinf item ct
                    = Inr (''#EXTINF:-1 tvg-id=\"'' @ rest @ ''\" tvg-name=\"'' @ tail)"
    by (intro create_extinf_with_id) auto
next
  assume a: "dict_get item ''id'' = Inr (JStr s) \<and> isdigit s"
  then have "own_id (JStr s) = Inr (Some s)" by (simp add: own_id_digits)
  moreover have "s \<noteq> []" using a by (simp add: isdigit_def)
  ultimately show "\<exists>tail. create_extinf item ct
                    = Inr (''#EXTINF:-1 tvg-id=\"'' @ s @ ''\" tvg-name=\"'' @ tail)"
    using a by (intro create_extinf_with_id) auto
qed

text \<open>The two identifiers of the specification: \<open>tt123\<close>, on an item with a poster
  that would give 500, and \<open>456\<close>.\<close>

theorem header_external_id_witness:
  "(\<exists>tail. create_extinf
       (JObj [(''id'', JStr ''tt123''), (''name'', JStr ''Film''),
              (''poster'', JStr ''https://image.tmdb.org/t/p/w500/500.jpg'')]) ''movie''
       = Inr (''#EXTINF:-1 tvg-id=\"'' @ ''123'' @ ''\" tvg-name=\"'' @ tail))
   \<and> (\<exists>tail. create_extinf (JObj [(''id'', JStr ''456''), (''name'', JStr ''Film'')]) ''movie''
       = Inr (''#EXTINF:-1 tvg-id=\"'' @ ''456'' @ ''\" tvg-name=\"'' @ tail))"
proof
  have "dict_get (JObj [(''id'', JStr ''tt123''), (''name'', JStr ''Film''),
              (''poster'', JStr ''https://image.tmdb.org/t/p/w500/500.jpg'')]) ''id''
          = Inr (JStr (''tt'' @ ''123'')) \<and> ''123'' \<noteq> [] \<and> \<not> contains ''tt'' ''123''"
    by simp
  with header_external_id[THEN conjunct1, rule_format, of _ "''123''"]
  show "\<exists>tail. create_extinf
       (JObj [(''id'', JStr ''tt123''), (''name'', JStr ''Film''),
              (''poster'', JStr ''https://image.tmdb.org/t/p/w500/500.jpg'')]) ''movie''
       = Inr (''#EXTINF:-1 tvg-id=\"'' @ ''123'' @ ''\" tvg-name=\"'' @ tail)"
    by blast
next
  have "dict_get (JObj [(''id'', JStr ''456''), (''name'', JStr ''Film'')]) ''id'' = Inr (JStr ''456'')
          \<and> isdigit ''456''"
    by (simp add: isdigit_def)
  with header_external_id[THEN conjunct2, rule_format, of _ "''456''"]
  show "\<exists>tail. create_extinf (JObj [(''id'', JStr ''456''), (''name'', JStr ''Film'')]) ''movie''
       = Inr (''#EXTINF:-1 tvg-id=\"'' @ ''456'' @ ''\" tvg-name=\"'' @ tail)"
    by blast
qed

text \<open>The claim as first stated fails on the identifier \<open>tt\<close>: the value left by
  the replacement is empty and the test \<^verbatim>\<open>if tmdb_id\<close> omits the field. The
  replacement removes every \<open>tt\<close>, so \<open>tt1tt2\<close> gives \<open>12\<close>.\<close>

theorem header_external_id_counterexample:
  "create_extinf (JObj [(''id'', JStr ''tt'')]) ''movie''
     = Inr ''#EXTINF:-1 tvg-name=\"Unknown\" group-title=\"Movies\", Unknown''
   \<and> \<not> (\<exists>tail. create_extinf (JObj [(''id'', JStr ''tt'')]) ''movie''
            = Inr (''#EXTINF:-1 tvg-id=\"'' @ drop 2 ''tt'' @ ''\"'' @ tail))
   \<and> create_extinf (JObj [(''id'', JStr ''tt1tt2'')]) ''movie''
     = Inr ''#EXTINF:-1 tvg-id=\"12\" tvg-name=\"Unknown\" group-title=\"Movies\", Unknown''"
  by (simp add: create_extinf_def extinf_parts_def tmdb_id_def own_id_def display_title_def)

text \<open>
  Claim C4, as amended. A header that is built has the field \<open>tvg-name\<close>, among the
  parts and in the header line; its value is the text of the item's name, and the
  placeholder \<open>Unknown\<close> when the item has no key \<open>name\<close>. A header is built for every
  item that is a dict whose \<open>id\<close> and \<open>poster\<close> are absent, \<^verbatim>\<open>None\<close> or strings.
\<close>

theorem header_display_name:
  "(create_extinf item ct = Inr h \<longrightarrow>
      (\<exists>kvs ps. item = JObj kvs \<and> extinf_parts item ct = Inr ps
         \<and> (''tvg-name=\"''
               @ py_str (case map_of kvs ''name'' of None \<Rightarrow> JStr ''Unknown'' | Some v \<Rightarrow> v)
               @ ''\"'') \<in> set ps
         \<and> contains (''tvg-name=\"''
               @ py_str (case map_of kvs ''name'' of None \<Rightarrow> JStr ''Unknown'' | Some v \<Rightarrow> v)
               @ ''\"'') h
         \<and> (map_of kvs ''name'' = None \<longrightarrow>
               ''tvg-name=\"Unknown\"'' \<in> set ps \<and> contains ''tvg-name=\"Unknown\"'' h)))
   \<and> ((\<forall>v. map_of kvs' ''id'' = Some v \<longrightarrow> v = JNull \<or> (\<exists>s. v = JStr s))
        \<and> (\<forall>v. map_of kvs' ''poster'' = Some v \<longrightarrow> v = JNull \<or> (\<exists>s. v = JStr s))
      \<longrightarrow> (\<exists>h'. create_extinf (JObj kvs') ct = Inr h'))"
proof (intro conjI impI)
  assume a: "create_extinf item ct = Inr h"
  then obtain kvs where item: "item = JObj kvs" by (auto dest: create_extinf_Inr_JObj)
  let ?name = "case map_of kvs ''name'' of None \<Rightarrow> JStr ''Unknown'' | Some v \<Rightarrow> v"
  let ?field = "''tvg-name=\"'' @ py_str ?name @ ''\"''"
  from a obtain tid where tid: "tmdb_id (JObj kvs) = Inr tid"
    by (cases "tmdb_id (JObj kvs)") (simp_all add: item create_extinf_JObj)
  from tid obtain ps where ps: "extinf_parts (JObj kvs) ct = Inr ps" "?field \<in> set ps"
    by (simp add: extinf_parts_JObj)
  define pre where "pre = ''#EXTINF:-1''
      @ (case tid of Some t \<Rightarrow> if t \<noteq> [] then '' tvg-id=\"'' @ t @ ''\"'' else [] | None \<Rightarrow> [])"
  define post where "post =
      (if truthy (case map_of kvs ''poster'' of None \<Rightarrow> JNull | Some v \<Rightarrow> v)
       then '' tvg-logo=\"''
              @ py_str (case map_of kvs ''poster'' of None \<Rightarrow> JNull | Some v \<Rightarrow> v) @ ''\"''
       else [])
      @ '' group-title=\"'' @ (if ct = ''series'' then ''Series'' else ''Movies'') @ ''\"''
      @ '', ''
      @ display_title ?name (case map_of kvs ''year'' of None \<Rightarrow> JNull | Some v \<Rightarrow> v)"
  from a tid have h: "h = (pre @ '' '') @ ?field @ post"
    by (simp add: item create_extinf_JObj pre_def post_def)
  have c: "contains ?field h"
    unfolding h by (rule contains_append)
  have u: "map_of kvs ''name'' = None \<longrightarrow>
             ''tvg-name=\"Unknown\"'' \<in> set ps \<and> contains ''tvg-name=\"Unknown\"'' h"
  proof
    assume n: "map_of kvs ''name'' = None"
    have "?field = ''tvg-name=\"Unknown\"''" by (simp add: n)
    with ps(2) c
    show "''tvg-name=\"Unknown\"'' \<in> set ps \<and> contains ''tvg-name=\"Unknown\"'' h"
      by metis
  qed
  have p1: "extinf_parts item ct = Inr ps" using ps(1) by (simp only: item)
  from item p1 ps(2) c u
  show "\<exists>kvs ps. item = JObj kvs \<and> extinf_parts item ct = Inr ps
         \<and> (''tvg-name=\"''
               @ py_str (case map_of kvs ''name'' of None \<Rightarrow> JStr ''Unknown'' | Some v \<Rightarrow> v)
               @ ''\"'') \<in> set ps
         \<and> contains (''tvg-name=\"''
               @ py_str (case map_of kvs ''name'' of None \<Rightarrow> JStr ''Unknown'' | Some v \<Rightarrow> v)
               @ ''\"'') h
         \<and> (map_of kvs ''name'' = None \<longrightarrow>
               ''tvg-name=\"Unknown\"'' \<in> set ps \<and> contains ''tvg-name=\"Unknown\"'' h)"
    by (intro exI conjI) assumption+
next
  assume "(\<forall>v. map_of kvs' ''id'' = Some v \<longrightarrow> v = JNull \<or> (\<exists>s. v = JStr s))
        \<and> (\<forall>v. map_of kvs' ''poster'' = Some v \<longrightarrow> v = JNull \<or> (\<exists>s. v = JStr s))"
  then obtain tid where "tmdb_id (JObj kvs') = Inr tid"
    using tmdb_id_returns[of kvs'] by blast
  then show "\<exists>h'. create_extinf (JObj kvs') ct = Inr h'"
    by (simp add: create_extinf_JObj)
qed

text \<open>An item without a name, and an item with a name and neither id nor poster.\<close>

theorem header_display_name_witness:
  "create_extinf (JObj [(''id'', JStr ''tt123'')]) ''movie''
     = Inr ''#EXTINF:-1 tvg-id=\"123\" tvg-name=\"Unknown\" group-title=\"Movies\", Unknown''
   \<and> contains ''tvg-name=\"Unknown\"''
         ''#EXTINF:-1 tvg-id=\"123\" tvg-name=\"Unknown\" group-title=\"Movies\", Unknown''
   \<and> (\<exists>h'. create_extinf (JObj [(''name'', JStr ''Film'')]) ''series'' = Inr h')"
proof (intro conjI)
  show e: "create_extinf (JObj [(''id'', JStr ''tt123'')]) ''movie''
     = Inr ''#EXTINF:-1 tvg-id=\"123\" tvg-name=\"Unknown\" group-title=\"Movies\", Unknown''"
    by (simp add: create_extinf_def extinf_parts_def tmdb_id_def own_id_def display_title_def)
  from header_display_name[THEN conjunct1, rule_format, OF e]
  obtain kvs ps where k: "JObj [(''id'', JStr ''tt123'')] = JObj kvs"
    and u: "map_of kvs ''name'' = None \<longrightarrow>
             ''tvg-name=\"Unknown\"'' \<in> set ps
           \<and> contains ''tvg-name=\"Unknown\"''
               ''#EXTINF:-1 tvg-id=\"123\" tvg-name=\"Unknown\" group-title=\"Movies\", Unknown''"
    by (elim exE conjE)
  from k have "map_of kvs ''name'' = None" by auto
  with u show "contains ''tvg-name=\"Unknown\"''
         ''#EXTINF:-1 tvg-id=\"123\" tvg-name=\"Unknown\" group-title=\"Movies\", Unknown''"
    by (elim impE conjE)
  have "(\<forall>v. map_of [(''name'', JStr ''Film'')] ''id'' = Some v \<longrightarrow> v = JNull \<or> (\<exists>s. v = JStr s))
      \<and> (\<forall>v. map_of [(''name'', JStr ''Film'')] ''poster'' = Some v \<longrightarrow> v = JNull \<or> (\<exists>s. v = JStr s))"
    by simp
  with header_display_name[THEN conjunct2, rule_format, of "[(''name'', JStr ''Film'')]" "''series''"]
  show "\<exists>h'. create_extinf (JObj [(''name'', JStr ''Film'')]) ''series'' = Inr h'"
    by (elim meta_impE) assumption+
qed

text \<open>The claim as first stated fails on the empty name: \<^verbatim>\<open>item.get('name', 'Unknown')\<close>
  returns the empty string that the item holds, and the field is \<open>tvg-name=""\<close>.\<close>

theorem header_display_name_counterexample:
  "create_extinf (JObj [(''name'', JStr [])]) ''movie''
     = Inr ''#EXTINF:-1 tvg-name=\"\" group-title=\"Movies\", ''
   \<and> \<not> contains ''tvg-name=\"Unknown\"'' ''#EXTINF:-1 tvg-name=\"\" group-title=\"Movies\", ''"
  by (simp add: create_extinf_def extinf_parts_def tmdb_id_def own_id_def display_title_def)

text \<open>
  Claim C10. When the identifier is a string that begins with \<open>tt\<close> and the
  replacement of every \<open>tt\<close> leaves nothing of it, \<^verbatim>\<open>tmdb_id\<close> is the empty string:
  the branch of the poster is not taken, whatever the poster is, the parts have no
  field \<open>tvg-id\<close>, and the header goes from the prefix token straight to \<open>tvg-name\<close>.
  No list of parts that the builder returns has the field \<open>tvg-id=""\<close>.
\<close>

theorem empty_external_id_omitted:
  "(dict_get item ''id'' = Inr (JStr s) \<and> prefix ''tt'' s \<and> str_replace ''tt'' [] s = []
      \<longrightarrow> tmdb_id item = Inr (Some [])
        \<and> (\<exists>ps. extinf_parts item ct = Inr ps \<and> \<not> (\<exists>p\<in>set ps. prefix ''tvg-id='' p))
        \<and> (\<exists>tail. create_extinf item ct = Inr (''#EXTINF:-1 tvg-name=\"'' @ tail)))
   \<and> (extinf_parts item' ct' = Inr ps' \<longrightarrow> ''tvg-id=\"\"'' \<notin> set ps')"
proof (intro conjI impI)
  assume a: "dict_get item ''id'' = Inr (JStr s) \<and> prefix ''tt'' s \<and> str_replace ''tt'' [] s = []"
  then obtain kvs where item: "item = JObj kvs" by (auto dest: dict_get_JObj)
  from a have "s \<noteq> []" by auto
  with a have own: "own_id (JStr s) = Inr (Some [])" by (simp add: own_id_def)
  with a show t: "tmdb_id item = Inr (Some [])" by (intro tmdb_id_own) auto
  then show "\<exists>ps. extinf_parts item ct = Inr ps \<and> \<not> (\<exists>p\<in>set ps. prefix ''tvg-id='' p)"
    by (simp add: item extinf_parts_JObj)
  from t show "\<exists>tail. create_extinf item ct = Inr (''#EXTINF:-1 tvg-name=\"'' @ tail)"
    by (simp add: item create_extinf_JObj)
next
  assume "extinf_parts item' ct' = Inr ps'"
  then show "''tvg-id=\"\"'' \<notin> set ps'" by (rule parts_no_empty_id)
qed

text \<open>The identifier \<open>tt\<close> on an item whose poster would give the ID 500.\<close>

theorem empty_external_id_omitted_witness:
  "extract_tmdb_from_poster (JStr ''https://image.tmdb.org/t/p/w500/500.jpg'') = Inr (Some ''500'')
   \<and> create_extinf
       (JObj [(''id'', JStr ''tt''), (''poster'', JStr ''https://image.tmdb.org/t/p/w500/500.jpg'')])
       ''movie''
     = Inr ''#EXTINF:-1 tvg-name=\"Unknown\" tvg-logo=\"https://image.tmdb.org/t/p/w500/500.jpg\" group-title=\"Movies\", Unknown''
   \<and> tmdb_id
       (JObj [(''id'', JStr ''tt''), (''poster'', JStr ''https://image.tmdb.org/t/p/w500/500.jpg'')])
     = Inr (Some [])
   \<and> ''tvg-id=\"\"'' \<notin> set [''#EXTINF:-1'', ''tvg-name=\"Unknown\"'', ''group-title=\"Movies\"'']"
proof (intro conjI)
  show "extract_tmdb_from_poster (JStr ''https://image.tmdb.org/t/p/w500/500.jpg'') = Inr (Some ''500'')"
    by simp
  show "create_extinf
       (JObj [(''id'', JStr ''tt''), (''poster'', JStr ''https://image.tmdb.org/t/p/w500/500.jpg'')])
       ''movie''
     = Inr ''#EXTINF:-1 tvg-name=\"Unknown\" tvg-logo=\"https://image.tmdb.org/t/p/w500/500.jpg\" group-title=\"Movies\", Unknown''"
    by (simp add: create_extinf_def extinf_parts_def tmdb_id_def own_id_def display_title_def)
  have "dict_get (JObj [(''id'', JStr ''tt''), (''poster'', JStr ''https://image.tmdb.org/t/p/w500/500.jpg'')]) ''id''
          = Inr (JStr ''tt'') \<and> prefix ''tt'' ''tt'' \<and> str_replace ''tt'' [] ''tt'' = []"
    by simp
  with empty_external_id_omitted[THEN conjunct1, rule_format, of _ "''tt''"]
  show "tmdb_id
       (JObj [(''id'', JStr ''tt''), (''poster'', JStr ''https://image.tmdb.org/t/p/w500/500.jpg'')])
     = Inr (Some [])"
    by blast
  have "extinf_parts (JObj []) ''movie'' = Inr [''#EXTINF:-1'', ''tvg-name=\"Unknown\"'', ''group-title=\"Movies\"'']"
    by (simp add: extinf_parts_def tmdb_id_def own_id_def)
  with empty_external_id_omitted[THEN conjunct2, rule_format]
  show "''tvg-id=\"\"'' \<notin> set [''#EXTINF:-1'', ''tvg-name=\"Unknown\"'', ''group-title=\"Movies\"'']"
    by blast
qed

section \<open>The static catalog\<close>

text \<open>The loop over the streams of an item appends one entry for each stream, all
  with the header of the item; it returns when the header is built and every stream
  has a \<open>url\<close>.\<close>

lemma stream_loop_urls:
  "create_extinf item ct = Inr h \<Longrightarrow> map (\<lambda>s. subscript s ''url'') ss = map Inr urls
   \<Longrightarrow> stream_loop item ct ss es = Inr (es @ map (Pair h) urls)"
proof (induction ss arbitrary: es urls)
  case Nil
  then show ?case by simp
next
  case (Cons s ss)
  from Cons.prems(2) obtain u us where urls: "urls = u # us"
    and u: "subscript s ''url'' = Inr u"
    and us: "map (\<lambda>s. subscript s ''url'') ss = map Inr us"
    by (cases urls) auto
  from Cons.IH[OF Cons.prems(1) us, of "es @ [(h, u)]"] Cons.prems(1) u
  show ?case by (simp add: urls)
qed

lemma stream_loop_Inr:
  "stream_loop item ct ss es = Inr es'
   \<Longrightarrow> \<exists>new. es' = es @ new \<and> length new = length ss
          \<and> (\<forall>p\<in>set new. create_extinf item ct = Inr (fst p))"
proof (induction ss arbitrary: es)
  case Nil
  then show ?case by simp
next
  case (Cons s ss)
  from Cons.prems obtain h u where h: "create_extinf item ct = Inr h"
    and u: "subscript s ''url'' = Inr u"
    and rest: "stream_loop item ct ss (es @ [(h, u)]) = Inr es'"
    by (cases "create_extinf item ct"; cases "subscript s ''url''") auto
  from Cons.IH[OF rest] obtain new where
    new: "es' = (es @ [(h, u)]) @ new" "length new = length ss"
         "\<forall>p\<in>set new. create_extinf item ct = Inr (fst p)"
    by blast
  have "es' = es @ ((h, u) # new)" using new(1) by simp
  moreover have "length ((h, u) # new) = length (s # ss)" using new(2) by simp
  moreover have "\<forall>p\<in>set ((h, u) # new). create_extinf item ct = Inr (fst p)"
    using new(3) h by simp
  ultimately show ?case by blast
qed

lemma py_iter_truthy: "truthy v \<Longrightarrow> py_iter v = Inr xs \<Longrightarrow> xs \<noteq> []"
  by (cases v) auto

lemma movie_step_dropped:
  "dict_get movie ''category'' = Inr c \<Longrightarrow> c \<notin> JStr ` set domestic_categories
   \<Longrightarrow> movie_step movie (es, n) = Inr (es, n)"
  by simp

lemma movie_step_no_streams:
  "dict_get movie ''streams'' = Inr s \<Longrightarrow> \<not> truthy s \<Longrightarrow> movie_step movie (es, n) = Inr (es, n)"
  by (cases movie) auto

lemma movie_step_kept:
  assumes "dict_get movie ''category'' = Inr c" "c \<in> JStr ` set domestic_categories"
    "dict_get movie ''streams'' = Inr s" "truthy s"
  shows "movie_step movie (es, n) =
           and_then (py_iter s) (\<lambda>ss. and_then (stream_loop movie ''movie'' ss es) (\<lambda>es'. Inr (es', n + 1)))"
  using assms by simp

lemma movie_step_Inr:
  assumes "movie_step movie (es, n) = Inr (es', n')"
  shows "\<exists>new. es' = es @ new \<and> length es' = length es + length new
      \<and> (new \<noteq> [] \<longleftrightarrow>
           (\<exists>c s. dict_get movie ''category'' = Inr (JStr c) \<and> c \<in> set domestic_categories
                \<and> dict_get movie ''streams'' = Inr s \<and> truthy s))"
proof -
  from assms obtain kvs where movie: "movie = JObj kvs" by (cases movie) auto
  obtain c where c: "dict_get movie ''category'' = Inr c" by (simp add: movie)
  obtain s where s: "dict_get movie ''streams'' = Inr s" by (simp add: movie)
  show ?thesis
  proof (cases "c \<in> JStr ` set domestic_categories")
    case False
    with assms c have "es' = es" by simp
    moreover have "\<not> (\<exists>c s. dict_get movie ''category'' = Inr (JStr c) \<and> c \<in> set domestic_categories
                \<and> dict_get movie ''streams'' = Inr s \<and> truthy s)"
      using False c by auto
    ultimately show ?thesis by simp
  next
    case True
    then obtain c' where c': "c = JStr c'" "c' \<in> set domestic_categories" by auto
    show ?thesis
    proof (cases "truthy s")
      case False
      with assms s have "es' = es" using movie_step_no_streams[OF s False] by simp
      moreover have "\<not> (\<exists>c s. dict_get movie ''category'' = Inr (JStr c) \<and> c \<in> set domestic_categories
                \<and> dict_get movie ''streams'' = Inr s \<and> truthy s)"
        using False s by auto
      ultimately show ?thesis by simp
    next
      case t: True
      from assms movie_step_kept[OF c True s t, of es n]
      have run: "and_then (py_iter s) (\<lambda>ss. and_then (stream_loop movie ''movie'' ss es)
                    (\<lambda>es'. Inr (es', n + 1))) = Inr (es', n')"
        by simp
      then obtain ss where ss: "py_iter s = Inr ss" by (cases "py_iter s") auto
      with run have "stream_loop movie ''movie'' ss es = Inr es'"
        by (cases "stream_loop movie ''movie'' ss es") auto
      from stream_loop_Inr[OF this] obtain new where
        new: "es' = es @ new" "length new = length ss" by blast
      have "ss \<noteq> []" using py_iter_truthy[OF t ss] .
      with new have "new \<noteq> []" by auto
      moreover have "\<exists>c s. dict_get movie ''category'' = Inr (JStr c) \<and> c \<in> set domestic_categories
                \<and> dict_get movie ''streams'' = Inr s \<and> truthy s"
        using c c' s t by auto
      ultimately show ?thesis using new(1) by auto
    qed
  qed
qed

lemma series_step_kept:
  assumes "dict_get sitem ''streams'' = Inr s" "truthy s"
  shows "series_step sitem (es, n) =
           and_then (py_iter s) (\<lambda>ss. and_then (stream_loop sitem ''series'' ss es) (\<lambda>es'. Inr (es', n + 1)))"
  using assms by simp

text \<open>The steps of the two loops append to the entries they find, and what they append
  does not depend on these entries: it is what the step gives from no entries. So the
  adapter returns the entries it found followed by the contributions of the movies in
  order and then those of the series.\<close>

lemma stream_loop_shift:
  "stream_loop item ct ss es = and_then (stream_loop item ct ss []) (\<lambda>new. Inr (es @ new))"
proof (induction ss arbitrary: es)
  case Nil
  show ?case by simp
next
  case (Cons s ss)
  show ?case
  proof (cases "create_extinf item ct")
    case (Inl e)
    then show ?thesis by simp
  next
    case h: (Inr extinf)
    show ?thesis
    proof (cases "subscript s ''url''")
      case (Inl e)
      with h show ?thesis by simp
    next
      case (Inr url)
      have a: "stream_loop item ct ss (es @ [(extinf, url)])
                 = and_then (stream_loop item ct ss []) (\<lambda>new. Inr ((es @ [(extinf, url)]) @ new))"
        by (rule Cons.IH)
      have b: "stream_loop item ct ss [(extinf, url)]
                 = and_then (stream_loop item ct ss []) (\<lambda>new. Inr ([(extinf, url)] @ new))"
        by (rule Cons.IH)
      show ?thesis using h Inr a b by (cases "stream_loop item ct ss []") simp_all
    qed
  qed
qed

lemma stream_loop_block:
  "stream_loop item ct ss es = Inr es' \<Longrightarrow> ss \<noteq> [] \<Longrightarrow>
     \<exists>h urls. create_extinf item ct = Inr h \<and> map (\<lambda>s. subscript s ''url'') ss = map Inr urls
          \<and> es' = es @ map (Pair h) urls"
proof (induction ss arbitrary: es)
  case Nil
  then show ?case by simp
next
  case (Cons s ss)
  from Cons.prems(1) obtain h u where h: "create_extinf item ct = Inr h"
    and u: "subscript s ''url'' = Inr u"
    and rest: "stream_loop item ct ss (es @ [(h, u)]) = Inr es'"
    by (cases "create_extinf item ct"; cases "subscript s ''url''") auto
  show ?case
  proof (cases "ss = []")
    case True
    with rest have "es' = es @ map (Pair h) [u]" by simp
    moreover have "map (\<lambda>s. subscript s ''url'') (s # ss) = map Inr [u]" using True u by simp
    ultimately show ?thesis using h by blast
  next
    case False
    from Cons.IH[OF rest False] obtain h' urls where
      r: "create_extinf item ct = Inr h'" "map (\<lambda>s. subscript s ''url'') ss = map Inr urls"
         "es' = (es @ [(h, u)]) @ map (Pair h') urls"
      by blast
    from r(1) h have "h' = h" by simp
    with r(3) have "es' = es @ map (Pair h) (u # urls)" by simp
    moreover have "map (\<lambda>s. subscript s ''url'') (s # ss) = map Inr (u # urls)" using r(2) u by simp
    ultimately show ?thesis using h by blast
  qed
qed

lemma movie_step_shift:
  "movie_step movie (es, n) = and_then (movie_step movie ([], 0)) (\<lambda>(new, k). Inr (es @ new, n + k))"
proof (cases "dict_get movie ''category''")
  case (Inl e)
  then show ?thesis by simp
next
  case c: (Inr category)
  show ?thesis
  proof (cases "category \<in> JStr ` set domestic_categories")
    case False
    with c show ?thesis by simp
  next
    case True
    from c obtain kvs where "movie = JObj kvs" by (auto dest: dict_get_JObj)
    then obtain st where st: "dict_get movie ''streams'' = Inr st" by simp
    show ?thesis
    proof (cases "truthy st")
      case False
      then show ?thesis
        using movie_step_no_streams[OF st False, of es n] movie_step_no_streams[OF st False, of "[]" 0]
        by simp
    next
      case t: True
      note l = movie_step_kept[OF c True st t, of es n]
      note r = movie_step_kept[OF c True st t, of "[]" 0]
      show ?thesis
      proof (cases "py_iter st")
        case (Inl e)
        show ?thesis unfolding l r by (simp add: Inl)
      next
        case (Inr ss)
        show ?thesis unfolding l r
          using stream_loop_shift[of movie "''movie''" ss es]
          by (cases "stream_loop movie ''movie'' ss []") (simp_all add: Inr)
      qed
    qed
  qed
qed

lemma series_step_shift:
  "series_step sitem (es, n) = and_then (series_step sitem ([], 0)) (\<lambda>(new, k). Inr (es @ new, n + k))"
proof (cases "dict_get sitem ''streams''")
  case (Inl e)
  then show ?thesis by simp
next
  case st: (Inr st)
  show ?thesis
  proof (cases "truthy st")
    case False
    with st show ?thesis by simp
  next
    case t: True
    note l = series_step_kept[OF st t, of es n]
    note r = series_step_kept[OF st t, of "[]" 0]
    show ?thesis
    proof (cases "py_iter st")
      case (Inl e)
      show ?thesis unfolding l r by (simp add: Inl)
    next
      case (Inr ss)
      show ?thesis unfolding l r
        using stream_loop_shift[of sitem "''series''" ss es]
        by (cases "stream_loop sitem ''series'' ss []") (simp_all add: Inr)
    qed
  qed
qed

lemma for_each_contrib:
  fixes body :: "'a \<Rightarrow> entry list \<times> nat \<Rightarrow> (entry list \<times> nat) result"
  assumes shift: "\<And>x es n. body x (es, n) = and_then (body x ([], 0)) (\<lambda>(new, k). Inr (es @ new, n + k))"
  shows "for_each body xs (es, n) = Inr (es', n') \<longleftrightarrow>
     (\<exists>cs. map (\<lambda>x. body x ([], 0)) xs = map Inr cs
          \<and> es' = es @ concat (map fst cs) \<and> n' = n + sum_list (map snd cs))"
proof (induction xs arbitrary: es n)
  case Nil
  show ?case by auto
next
  case (Cons x xs)
  show ?case
  proof (cases "body x ([], 0)")
    case (Inl e)
    then have "for_each body (x # xs) (es, n) = Inl e" using shift[of x es n] by simp
    moreover have "\<not> (\<exists>cs. map (\<lambda>x. body x ([], 0)) (x # xs) = map Inr cs
          \<and> es' = es @ concat (map fst cs) \<and> n' = n + sum_list (map snd cs))"
      using Inl by (auto simp: Cons_eq_map_conv)
    ultimately show ?thesis by simp
  next
    case (Inr c)
    obtain new k where c: "c = (new, k)" by (cases c)
    have "for_each body (x # xs) (es, n) = for_each body xs (es @ new, n + k)"
      using shift[of x es n] Inr c by simp
    also have "\<dots> = Inr (es', n') \<longleftrightarrow>
      (\<exists>cs. map (\<lambda>x. body x ([], 0)) xs = map Inr cs
          \<and> es' = (es @ new) @ concat (map fst cs) \<and> n' = (n + k) + sum_list (map snd cs))"
      by (rule Cons.IH)
    also have "\<dots> \<longleftrightarrow> (\<exists>cs. map (\<lambda>x. body x ([], 0)) (x # xs) = map Inr cs
          \<and> es' = es @ concat (map fst cs) \<and> n' = n + sum_list (map snd cs))"
    proof
      assume "\<exists>cs. map (\<lambda>x. body x ([], 0)) xs = map Inr cs
          \<and> es' = (es @ new) @ concat (map fst cs) \<and> n' = (n + k) + sum_list (map snd cs)"
      then obtain cs where cs: "map (\<lambda>x. body x ([], 0)) xs = map Inr cs"
          "es' = (es @ new) @ concat (map fst cs)" "n' = (n + k) + sum_list (map snd cs)"
        by blast
      have "map (\<lambda>x. body x ([], 0)) (x # xs) = map Inr ((new, k) # cs)"
        using cs(1) Inr c by simp
      moreover have "es' = es @ concat (map fst ((new, k) # cs))" using cs(2) by simp
      moreover have "n' = n + sum_list (map snd ((new, k) # cs))" using cs(3) by simp
      ultimately show "\<exists>cs. map (\<lambda>x. body x ([], 0)) (x # xs) = map Inr cs
          \<and> es' = es @ concat (map fst cs) \<and> n' = n + sum_list (map snd cs)"
        by blast
    next
      assume "\<exists>cs. map (\<lambda>x. body x ([], 0)) (x # xs) = map Inr cs
          \<and> es' = es @ concat (map fst cs) \<and> n' = n + sum_list (map snd cs)"
      then obtain cs where cs: "map (\<lambda>x. body x ([], 0)) (x # xs) = map Inr cs"
          "es' = es @ concat (map fst cs)" "n' = n + sum_list (map snd cs)"
        by blast
      from cs(1) obtain c' cs' where s: "cs = c' # cs'" "body x ([], 0) = Inr c'"
        "map (\<lambda>x. body x ([], 0)) xs = map Inr cs'"
        by (cases cs) auto
      from s(2) Inr c have c': "c' = (new, k)" by simp
      have "es' = (es @ new) @ concat (map fst cs')" using cs(2) s(1) c' by simp
      moreover have "n' = (n + k) + sum_list (map snd cs')" using cs(3) s(1) c' by simp
      ultimately show "\<exists>cs. map (\<lambda>x. body x ([], 0)) xs = map Inr cs
          \<and> es' = (es @ new) @ concat (map fst cs) \<and> n' = (n + k) + sum_list (map snd cs)"
        using s(3) by blast
    qed
    finally show ?thesis .
  qed
qed

lemma static_catalog_iff:
  assumes "truthy data"
    and "dict_get_default data ''movies'' (JArr []) = Inr (JArr ms)"
    and "dict_get_default data ''series'' (JArr []) = Inr (JArr ss)"
  shows "static_catalog data es = Inr (es', mc, sc) \<longleftrightarrow>
     (\<exists>cm cs. map (\<lambda>m. movie_step m ([], 0)) ms = map Inr cm
            \<and> map (\<lambda>s. series_step s ([], 0)) ss = map Inr cs
            \<and> es' = es @ concat (map fst cm) @ concat (map fst cs)
            \<and> mc = sum_list (map snd cm) \<and> sc = sum_list (map snd cs))"
proof -
  note fm = for_each_contrib[where body = movie_step, OF movie_step_shift]
  note fs = for_each_contrib[where body = series_step, OF series_step_shift]
  have unf: "static_catalog data es =
        and_then (for_each movie_step ms (es, 0)) (\<lambda>(entries1, movie_count).
        and_then (for_each series_step ss (entries1, 0)) (\<lambda>(entries2, series_count).
          Inr (entries2, movie_count, series_count)))"
    using assms by (simp add: static_catalog_def)
  show ?thesis
  proof
    assume a: "static_catalog data es = Inr (es', mc, sc)"
    then obtain e1 n1 where m: "for_each movie_step ms (es, 0) = Inr (e1, n1)"
      by (cases "for_each movie_step ms (es, 0)") (auto simp: unf)
    with a obtain e2 n2 where s: "for_each series_step ss (e1, 0) = Inr (e2, n2)"
      by (cases "for_each series_step ss (e1, 0)") (auto simp: unf)
    from a m s have r: "es' = e2" "mc = n1" "sc = n2" by (simp_all add: unf)
    from m[unfolded fm] obtain cm where cm: "map (\<lambda>m. movie_step m ([], 0)) ms = map Inr cm"
      "e1 = es @ concat (map fst cm)" "n1 = 0 + sum_list (map snd cm)" by blast
    from s[unfolded fs] obtain cs where cs: "map (\<lambda>s. series_step s ([], 0)) ss = map Inr cs"
      "e2 = e1 @ concat (map fst cs)" "n2 = 0 + sum_list (map snd cs)" by blast
    from cm cs r show "\<exists>cm cs. map (\<lambda>m. movie_step m ([], 0)) ms = map Inr cm
            \<and> map (\<lambda>s. series_step s ([], 0)) ss = map Inr cs
            \<and> es' = es @ concat (map fst cm) @ concat (map fst cs)
            \<and> mc = sum_list (map snd cm) \<and> sc = sum_list (map snd cs)"
      by auto
  next
    assume "\<exists>cm cs. map (\<lambda>m. movie_step m ([], 0)) ms = map Inr cm
            \<and> map (\<lambda>s. series_step s ([], 0)) ss = map Inr cs
            \<and> es' = es @ concat (map fst cm) @ concat (map fst cs)
            \<and> mc = sum_list (map snd cm) \<and> sc = sum_list (map snd cs)"
    then obtain cm cs where cm: "map (\<lambda>m. movie_step m ([], 0)) ms = map Inr cm"
      and cs: "map (\<lambda>s. series_step s ([], 0)) ss = map Inr cs"
      and r: "es' = es @ concat (map fst cm) @ concat (map fst cs)"
         "mc = sum_list (map snd cm)" "sc = sum_list (map snd cs)"
      by blast
    have m: "for_each movie_step ms (es, 0) = Inr (es @ concat (map fst cm), sum_list (map snd cm))"
      unfolding fm using cm by auto
    have s: "for_each series_step ss (es @ concat (map fst cm), 0)
               = Inr (es @ concat (map fst cm) @ concat (map fst cs), sum_list (map snd cs))"
      unfolding fs using cs by auto
    show "static_catalog data es = Inr (es', mc, sc)"
      by (simp add: unf m s r)
  qed
qed

lemma for_each_append:
  "for_each body (xs @ ys) s = and_then (for_each body xs s) (for_each body ys)"
proof (induction xs arbitrary: s)
  case Nil
  show ?case by simp
next
  case (Cons x xs)
  show ?case by (cases "body x s") (simp_all add: Cons.IH)
qed

lemma movie_step_kept_block:
  assumes run: "movie_step movie (es, n) = Inr (es', n')"
    and c: "dict_get movie ''category'' = Inr (JStr c)" "c \<in> set domestic_categories"
    and st: "dict_get movie ''streams'' = Inr st" "truthy st"
  shows "\<exists>ss h urls. st = JArr ss \<and> ss \<noteq> [] \<and> create_extinf movie ''movie'' = Inr h
          \<and> map (\<lambda>s. subscript s ''url'') ss = map Inr urls
          \<and> es' = es @ map (Pair h) urls \<and> n' = n + 1"
proof -
  have cin: "JStr c \<in> JStr ` set domestic_categories" using c(2) by simp
  from run movie_step_kept[OF c(1) cin st, of es n]
  have r: "and_then (py_iter st) (\<lambda>ss. and_then (stream_loop movie ''movie'' ss es)
                    (\<lambda>es'. Inr (es', n + 1))) = Inr (es', n')"
    by simp
  then obtain ss where ss: "py_iter st = Inr ss" by (cases "py_iter st") auto
  with r have sl: "stream_loop movie ''movie'' ss es = Inr es'" and n': "n' = n + 1"
    by (cases "stream_loop movie ''movie'' ss es"; auto)+
  have ne: "ss \<noteq> []" using py_iter_truthy[OF st(2) ss] .
  from stream_loop_block[OF sl ne] obtain h urls where
    b: "create_extinf movie ''movie'' = Inr h" "map (\<lambda>s. subscript s ''url'') ss = map Inr urls"
       "es' = es @ map (Pair h) urls"
    by blast
  have ok: "\<exists>u. subscript x ''url'' = Inr u" if "x \<in> set ss" for x
  proof -
    from that have "subscript x ''url'' \<in> set (map (\<lambda>s. subscript s ''url'') ss)" by simp
    then show ?thesis unfolding b(2) by auto
  qed
  from ne obtain x where x: "x \<in> set ss" by (cases ss) auto
  have "st = JArr ss"
  proof (cases st)
    case (JArr xs)
    with ss show ?thesis by simp
  next
    case (JStr s)
    with ss x obtain ch where "x = JStr [ch]" by auto
    with ok[OF x] show ?thesis by simp
  next
    case (JObj kvs)
    with ss x obtain k where "x = JStr k" by auto
    with ok[OF x] show ?thesis by simp
  qed (use ss in simp_all)
  with ne b n' show ?thesis by blast
qed

lemma series_step_kept_block:
  assumes run: "series_step sitem (es, n) = Inr (es', n')"
    and st: "dict_get sitem ''streams'' = Inr st" "truthy st"
  shows "\<exists>ss h urls. st = JArr ss \<and> ss \<noteq> [] \<and> create_extinf sitem ''series'' = Inr h
          \<and> map (\<lambda>s. subscript s ''url'') ss = map Inr urls
          \<and> es' = es @ map (Pair h) urls \<and> n' = n + 1"
proof -
  from run series_step_kept[OF st, of es n]
  have r: "and_then (py_iter st) (\<lambda>ss. and_then (stream_loop sitem ''series'' ss es)
                    (\<lambda>es'. Inr (es', n + 1))) = Inr (es', n')"
    by simp
  then obtain ss where ss: "py_iter st = Inr ss" by (cases "py_iter st") auto
  with r have sl: "stream_loop sitem ''series'' ss es = Inr es'" and n': "n' = n + 1"
    by (cases "stream_loop sitem ''series'' ss es"; auto)+
  have ne: "ss \<noteq> []" using py_iter_truthy[OF st(2) ss] .
  from stream_loop_block[OF sl ne] obtain h urls where
    b: "create_extinf sitem ''series'' = Inr h" "map (\<lambda>s. subscript s ''url'') ss = map Inr urls"
       "es' = es @ map (Pair h) urls"
    by blast
  have ok: "\<exists>u. subscript x ''url'' = Inr u" if "x \<in> set ss" for x
  proof -
    from that have "subscript x ''url'' \<in> set (map (\<lambda>s. subscript s ''url'') ss)" by simp
    then show ?thesis unfolding b(2) by auto
  qed
  from ne obtain x where x: "x \<in> set ss" by (cases ss) auto
  have "st = JArr ss"
  proof (cases st)
    case (JArr xs)
    with ss show ?thesis by simp
  next
    case (JStr s)
    with ss x obtain ch where "x = JStr [ch]" by auto
    with ok[OF x] show ?thesis by simp
  next
    case (JObj kvs)
    with ss x obtain k where "x = JStr k" by auto
    with ok[OF x] show ?thesis by simp
  qed (use ss in simp_all)
  with ne b n' show ?thesis by blast
qed

lemma for_each_step_grows:
  fixes body :: "'a \<Rightarrow> entry list \<times> nat \<Rightarrow> (entry list \<times> nat) result"
  assumes shift: "\<And>x es n. body x (es, n) = and_then (body x ([], 0)) (\<lambda>(new, k). Inr (es @ new, n + k))"
    and run: "for_each body xs (es, n) = Inr (es', n')"
  shows "\<exists>new. es' = es @ new"
  using run unfolding for_each_contrib[where body = body, OF shift] by blast

lemma for_each_block:
  fixes body :: "'a \<Rightarrow> entry list \<times> nat \<Rightarrow> (entry list \<times> nat) result"
  assumes shift: "\<And>x es n. body x (es, n) = and_then (body x ([], 0)) (\<lambda>(new, k). Inr (es @ new, n + k))"
    and run: "for_each body (before @ x # after) (es, n0) = Inr (es', n')"
  shows "\<exists>pre n new k post. for_each body before (es, n0) = Inr (pre, n)
          \<and> body x (pre, n) = Inr (pre @ new, n + k) \<and> body x ([], 0) = Inr (new, k)
          \<and> for_each body after (pre @ new, n + k) = Inr (es', n')
          \<and> es' = pre @ new @ post"
proof -
  from run obtain s1 where b: "for_each body before (es, n0) = Inr s1"
    and r1: "for_each body (x # after) s1 = Inr (es', n')"
    by (cases "for_each body before (es, n0)") (auto simp: for_each_append)
  obtain pre n where s1: "s1 = (pre, n)" by (cases s1)
  from r1 obtain s2 where x: "body x (pre, n) = Inr s2" and a: "for_each body after s2 = Inr (es', n')"
    by (cases "body x (pre, n)") (auto simp: s1)
  from x shift[of x pre n] obtain new k where c: "body x ([], 0) = Inr (new, k)"
    and s2: "s2 = (pre @ new, n + k)"
    by (cases "body x ([], 0)") auto
  from for_each_step_grows[where body = body, OF shift a[unfolded s2]]
  obtain post where "es' = (pre @ new) @ post" by blast
  then have "es' = pre @ new @ post" by simp
  with b x a c s1 s2 show ?thesis by blast
qed

lemma static_catalog_runs:
  assumes "static_catalog data es = Inr (es', mc, sc)"
    and "dict_get_default data ''movies'' (JArr []) = Inr (JArr ms)"
  shows "\<exists>e1 sv ss. for_each movie_step ms (es, 0) = Inr (e1, mc)
          \<and> dict_get_default data ''series'' (JArr []) = Inr sv \<and> py_iter sv = Inr ss
          \<and> for_each series_step ss (e1, 0) = Inr (es', sc)"
proof -
  from assms(2) obtain kvs where d: "data = JObj kvs" by (cases data) auto
  obtain sv where sv: "dict_get_default data ''series'' (JArr []) = Inr sv" by (simp add: d)
  show ?thesis
  proof (cases "truthy data")
    case False
    with d have "kvs = []" by simp
    with d assms(2) sv have "ms = []" "sv = JArr []" by simp_all
    moreover from False assms(1) have "es' = es" "mc = 0" "sc = 0"
      by (simp_all add: static_catalog_def)
    ultimately have "for_each movie_step ms (es, 0) = Inr (es, mc)
          \<and> dict_get_default data ''series'' (JArr []) = Inr sv \<and> py_iter sv = Inr []
          \<and> for_each series_step [] (es, 0) = Inr (es', sc)"
      using sv by simp
    then show ?thesis by blast
  next
    case t: True
    from assms t sv have unf: "and_then (for_each movie_step ms (es, 0)) (\<lambda>(entries1, movie_count).
          and_then (py_iter sv) (\<lambda>ss.
          and_then (for_each series_step ss (entries1, 0)) (\<lambda>(entries2, series_count).
            Inr (entries2, movie_count, series_count)))) = Inr (es', mc, sc)"
      by (simp add: static_catalog_def)
    then obtain e1 n1 where m: "for_each movie_step ms (es, 0) = Inr (e1, n1)"
      by (cases "for_each movie_step ms (es, 0)") auto
    with unf obtain ss where ss: "py_iter sv = Inr ss"
      by (cases "py_iter sv") auto
    with unf m obtain e2 n2 where s: "for_each series_step ss (e1, 0) = Inr (e2, n2)"
      by (cases "for_each series_step ss (e1, 0)") auto
    from unf m ss s have "es' = e2" "mc = n1" "sc = n2" by simp_all
    with m sv ss s show ?thesis by blast
  qed
qed

lemma static_catalog_movie_block:
  assumes "static_catalog data es = Inr (es', mc, sc)"
    and "dict_get_default data ''movies'' (JArr []) = Inr (JArr (before @ movie # after))"
  shows "\<exists>pre n new k post. for_each movie_step before (es, 0) = Inr (pre, n)
          \<and> movie_step movie (pre, n) = Inr (pre @ new, n + k)
          \<and> movie_step movie ([], 0) = Inr (new, k)
          \<and> es' = pre @ new @ post"
proof -
  from static_catalog_runs[OF assms] obtain e1 sv ss where
    m: "for_each movie_step (before @ movie # after) (es, 0) = Inr (e1, mc)"
    and s: "for_each series_step ss (e1, 0) = Inr (es', sc)"
    by blast
  from for_each_block[where body = movie_step, OF movie_step_shift m]
  obtain pre n new k post where
    b: "for_each movie_step before (es, 0) = Inr (pre, n)"
       "movie_step movie (pre, n) = Inr (pre @ new, n + k)"
       "movie_step movie ([], 0) = Inr (new, k)"
       "e1 = pre @ new @ post"
    by blast
  from for_each_step_grows[where body = series_step, OF series_step_shift s]
  obtain post2 where "es' = e1 @ post2" by blast
  with b(4) have "es' = pre @ new @ (post @ post2)" by simp
  with b(1-3) show ?thesis by blast
qed

lemma static_catalog_series_block:
  assumes "static_catalog data es = Inr (es', mc, sc)"
    and "dict_get_default data ''movies'' (JArr []) = Inr (JArr ms)"
    and "dict_get_default data ''series'' (JArr []) = Inr (JArr (before @ sitem # after))"
  shows "\<exists>e1 pre n new k post. for_each movie_step ms (es, 0) = Inr (e1, mc)
          \<and> for_each series_step before (e1, 0) = Inr (pre, n)
          \<and> series_step sitem (pre, n) = Inr (pre @ new, n + k)
          \<and> series_step sitem ([], 0) = Inr (new, k)
          \<and> es' = pre @ new @ post"
proof -
  from static_catalog_runs[OF assms(1,2)] assms(3) obtain e1 where
    m: "for_each movie_step ms (es, 0) = Inr (e1, mc)"
    and s: "for_each series_step (before @ sitem # after) (e1, 0) = Inr (es', sc)"
    by auto
  from for_each_block[where body = series_step, OF series_step_shift s]
  obtain pre n new k post where
    b: "for_each series_step before (e1, 0) = Inr (pre, n)"
       "series_step sitem (pre, n) = Inr (pre @ new, n + k)"
       "series_step sitem ([], 0) = Inr (new, k)"
       "es' = pre @ new @ post"
    by blast
  with m show ?thesis by blast
qed

lemma movie_step_contributes:
  assumes "movie_step movie (es, n) = Inr (es @ new, n')"
  shows "new \<noteq> [] \<longleftrightarrow>
           (\<exists>c s. dict_get movie ''category'' = Inr (JStr c) \<and> c \<in> set domestic_categories
                \<and> dict_get movie ''streams'' = Inr s \<and> truthy s)"
  using movie_step_Inr[OF assms] by auto

section \<open>The paginated loops\<close>

text \<open>The loop returns what its last turn returns, and it returns exactly when some
  turn does not go on.\<close>

lemma paginate_Break: "turn s = Inr (Break r) \<Longrightarrow> paginate turn s = Some (Inr r)"
  by (subst paginate.simps) simp

lemma paginate_raise: "turn s = Inl e \<Longrightarrow> paginate turn s = Some (Inl e)"
  by (subst paginate.simps) simp

lemma paginate_Continue: "turn s = Inr (Continue s') \<Longrightarrow> paginate turn s = paginate turn s'"
  by (subst paginate.simps) simp

lemma paginate_turns: "turns turn k s = Some s' \<Longrightarrow> paginate turn s = paginate turn s'"
proof (induction k arbitrary: s)
  case 0
  then show ?case by simp
next
  case (Suc k)
  then obtain s1 where s1: "turn s = Inr (Continue s1)" "turns turn k s1 = Some s'"
    by (auto split: sum.splits turn.splits)
  from Suc.IH[OF s1(2)] paginate_Continue[of turn s s1] s1(1) show ?case by simp
qed

lemma paginate_Some:
  assumes "paginate turn s = Some y"
  shows "\<exists>k s'. turns turn k s = Some s'
        \<and> (case y of Inl e \<Rightarrow> turn s' = Inl e | Inr r \<Rightarrow> turn s' = Inr (Break r))"
proof (rule paginate.raw_induct[where P = "\<lambda>turn s y. \<exists>k s'. turns turn k s = Some s'
        \<and> (case y of Inl e \<Rightarrow> turn s' = Inl e | Inr r \<Rightarrow> turn s' = Inr (Break r))", OF _ assms])
  fix paginate' :: "('a \<Rightarrow> 'a turn result) \<Rightarrow> 'a \<Rightarrow> 'a result option"
  fix turn s y
  assume IH: "\<And>t b z. paginate' t b = Some z \<Longrightarrow>
                \<exists>k s'. turns t k b = Some s'
                  \<and> (case z of Inl e \<Rightarrow> t s' = Inl e | Inr r \<Rightarrow> t s' = Inr (Break r))"
    and eq: "(case turn s of Inl e \<Rightarrow> Some (Inl e) | Inr (Break s') \<Rightarrow> Some (Inr s')
              | Inr (Continue s') \<Rightarrow> paginate' turn s') = Some y"
  show "\<exists>k s'. turns turn k s = Some s'
        \<and> (case y of Inl e \<Rightarrow> turn s' = Inl e | Inr r \<Rightarrow> turn s' = Inr (Break r))"
  proof (cases "turn s")
    case (Inl e)
    with eq have "y = Inl e" by simp
    with Inl have "turns turn 0 s = Some s
        \<and> (case y of Inl e \<Rightarrow> turn s = Inl e | Inr r \<Rightarrow> turn s = Inr (Break r))"
      by simp
    then show ?thesis by blast
  next
    case (Inr t)
    show ?thesis
    proof (cases t)
      case (Break r)
      with eq Inr have "y = Inr r" by simp
      with Inr Break have "turns turn 0 s = Some s
        \<and> (case y of Inl e \<Rightarrow> turn s = Inl e | Inr r \<Rightarrow> turn s = Inr (Break r))"
        by simp
      then show ?thesis by blast
    next
      case (Continue s1)
      with eq Inr have "paginate' turn s1 = Some y" by simp
      from IH[of turn s1 y, OF this] obtain k s' where
        k: "turns turn k s1 = Some s'"
           "case y of Inl e \<Rightarrow> turn s' = Inl e | Inr r \<Rightarrow> turn s' = Inr (Break r)"
        by blast
      from k(1) Inr Continue have "turns turn (Suc k) s = Some s'" by simp
      with k(2) show ?thesis by blast
    qed
  qed
qed

lemma turns_Suc_end:
  "turns turn (Suc k) s =
     (case turns turn k s of
        None \<Rightarrow> None
      | Some s' \<Rightarrow> (case turn s' of Inr (Continue s'') \<Rightarrow> Some s'' | _ \<Rightarrow> None))"
proof (induction k arbitrary: s)
  case 0
  show ?case by (simp split: sum.splits turn.splits)
next
  case (Suc k)
  show ?case
  proof (cases "turn s")
    case (Inl e)
    then show ?thesis by simp
  next
    case (Inr t)
    show ?thesis
    proof (cases t)
      case (Break r)
      with Inr show ?thesis by simp
    next
      case (Continue s1)
      have a: "turns turn (Suc (Suc k)) s = turns turn (Suc k) s1"
        using Inr Continue by simp
      have b: "turns turn (Suc k) s = turns turn k s1"
        using Inr Continue by simp
      show ?thesis unfolding a b by (rule Suc.IH)
    qed
  qed
qed

lemma turns_prefix: "turns turn k s = None \<Longrightarrow> k \<le> j \<Longrightarrow> turns turn j s = None"
proof (induction j)
  case 0
  then show ?case by simp
next
  case (Suc j)
  show ?case
  proof (cases "k = Suc j")
    case True
    with Suc.prems show ?thesis by simp
  next
    case False
    with Suc have "turns turn j s = None" by simp
    then show ?thesis by (simp only: turns_Suc_end option.case)
  qed
qed

lemma paginate_Inr_iff:
  "paginate turn s = Some (Inr r) \<longleftrightarrow> (\<exists>k s'. turns turn k s = Some s' \<and> turn s' = Inr (Break r))"
proof
  assume "paginate turn s = Some (Inr r)"
  from paginate_Some[OF this] show "\<exists>k s'. turns turn k s = Some s' \<and> turn s' = Inr (Break r)"
    by simp
next
  assume "\<exists>k s'. turns turn k s = Some s' \<and> turn s' = Inr (Break r)"
  then obtain k s' where "turns turn k s = Some s'" "turn s' = Inr (Break r)" by blast
  then show "paginate turn s = Some (Inr r)"
    using paginate_turns paginate_Break by metis
qed

lemma paginate_Inl_iff:
  "paginate turn s = Some (Inl e) \<longleftrightarrow> (\<exists>k s'. turns turn k s = Some s' \<and> turn s' = Inl e)"
proof
  assume "paginate turn s = Some (Inl e)"
  from paginate_Some[OF this] show "\<exists>k s'. turns turn k s = Some s' \<and> turn s' = Inl e"
    by simp
next
  assume "\<exists>k s'. turns turn k s = Some s' \<and> turn s' = Inl e"
  then obtain k s' where "turns turn k s = Some s'" "turn s' = Inl e" by blast
  then show "paginate turn s = Some (Inl e)"
    using paginate_turns paginate_raise by metis
qed


lemma and_then_Inr_iff: "and_then m f = Inr y \<longleftrightarrow> (\<exists>x. m = Inr x \<and> f x = Inr y)"
  by (cases m) auto

lemma page_turn_unfold:
  assumes "fetch_json (url_of skip) w = (page, w1)"
  shows "page_turn url_of meta_step fetch_json (skip, loaded, es, w) =
     (if \<not> truthy page then Inr (Break (skip, loaded, es, w1))
      else
        and_then (dict_get page ''metas'') (\<lambda>metas.
          if \<not> truthy metas then Inr (Break (skip, loaded, es, w1))
          else
            and_then (py_len metas) (\<lambda>n.
            and_then (py_iter metas) (\<lambda>ms.
            and_then (for_each meta_step ms (es, w1)) (\<lambda>(es', w2).
              Inr (Continue (skip + 100, loaded + n, es', w2)))))))"
  using assms by (simp add: page_turn_def)

lemma page_turn_Break_iff:
  assumes "fetch_json (url_of skip) w = (page, w1)"
  shows "page_turn url_of meta_step fetch_json (skip, loaded, es, w) = Inr (Break r) \<longleftrightarrow>
           r = (skip, loaded, es, w1)
         \<and> (\<not> truthy page \<or> (\<exists>metas. dict_get page ''metas'' = Inr metas \<and> \<not> truthy metas))"
proof (cases "truthy page")
  case False
  then show ?thesis by (auto simp: page_turn_unfold[where fetch_json = fetch_json and url_of = url_of and skip = skip and w = w, OF assms])
next
  case True
  show ?thesis
  proof (cases "dict_get page ''metas''")
    case (Inl e)
    with True show ?thesis by (simp add: page_turn_unfold[where fetch_json = fetch_json and url_of = url_of and skip = skip and w = w, OF assms])
  next
    case (Inr metas)
    show ?thesis
    proof (cases "truthy metas")
      case False
      with True Inr show ?thesis by (auto simp: page_turn_unfold[where fetch_json = fetch_json and url_of = url_of and skip = skip and w = w, OF assms])
    next
      case t: True
      have "page_turn url_of meta_step fetch_json (skip, loaded, es, w) \<noteq> Inr (Break r)"
        using True Inr t
        by (auto simp: page_turn_unfold[where fetch_json = fetch_json and url_of = url_of and skip = skip and w = w, OF assms]
              and_then_Inr_iff)
      with True Inr t show ?thesis by simp
    qed
  qed
qed

lemma page_turn_Continue:
  assumes "page_turn url_of meta_step fetch_json (skip, loaded, es, w) = Inr (Continue r)"
  shows "\<exists>page w1 metas n ms es' w2.
           fetch_json (url_of skip) w = (page, w1) \<and> truthy page
         \<and> dict_get page ''metas'' = Inr metas \<and> truthy metas
         \<and> py_len metas = Inr n \<and> py_iter metas = Inr ms
         \<and> for_each meta_step ms (es, w1) = Inr (es', w2)
         \<and> r = (skip + 100, loaded + n, es', w2)"
proof -
  obtain page w1 where f: "fetch_json (url_of skip) w = (page, w1)" by (cases "fetch_json (url_of skip) w")
  from assms have t: "truthy page"
    by (auto simp: page_turn_unfold[where fetch_json = fetch_json and url_of = url_of and skip = skip and w = w, OF f] split: if_splits)
  with assms obtain metas where m: "dict_get page ''metas'' = Inr metas"
    by (cases "dict_get page ''metas''") (auto simp: page_turn_unfold[where fetch_json = fetch_json and url_of = url_of and skip = skip and w = w, OF f])
  with assms t have tm: "truthy metas"
    by (auto simp: page_turn_unfold[where fetch_json = fetch_json and url_of = url_of and skip = skip and w = w, OF f] split: if_splits)
  with assms t m obtain n where n: "py_len metas = Inr n"
    by (cases "py_len metas") (auto simp: page_turn_unfold[where fetch_json = fetch_json and url_of = url_of and skip = skip and w = w, OF f])
  with assms t m tm obtain ms where ms: "py_iter metas = Inr ms"
    by (cases "py_iter metas") (auto simp: page_turn_unfold[where fetch_json = fetch_json and url_of = url_of and skip = skip and w = w, OF f])
  with assms t m tm n obtain es' w2 where
    fe: "for_each meta_step ms (es, w1) = Inr (es', w2)"
    by (cases "for_each meta_step ms (es, w1)") (auto simp: page_turn_unfold[where fetch_json = fetch_json and url_of = url_of and skip = skip and w = w, OF f])
  with assms t m tm n ms have "r = (skip + 100, loaded + n, es', w2)"
    by (auto simp: page_turn_unfold[where fetch_json = fetch_json and url_of = url_of and skip = skip and w = w, OF f])
  with f t m tm n ms fe show ?thesis by blast
qed








section \<open>The episodes of a series\<close>

text \<open>A body inside \<^verbatim>\<open>try\<close> only appends entries; the loop over the episodes stops
  at the first episode that raises.\<close>

lemma url_stream_loop_grows:
  "url_stream_loop item ct ss es = (raised, es') \<Longrightarrow> \<exists>new. es' = es @ new"
proof (induction ss arbitrary: es)
  case Nil
  then show ?case by simp
next
  case (Cons s ss)
  show ?case
  proof (cases "dict_get s ''url''")
    case (Inl e)
    with Cons.prems show ?thesis by (simp add: attempt_def)
  next
    case (Inr url)
    show ?thesis
    proof (cases "truthy url")
      case False
      with Cons.prems Inr have "url_stream_loop item ct ss es = (raised, es')"
        by (simp add: attempt_def)
      from Cons.IH[OF this] show ?thesis .
    next
      case True
      show ?thesis
      proof (cases "create_extinf item ct")
        case (Inl e)
        with Cons.prems Inr True show ?thesis by (simp add: attempt_def)
      next
        case h: (Inr extinf)
        with Cons.prems Inr True
        have "url_stream_loop item ct ss (es @ [(extinf, url)]) = (raised, es')"
          by (simp add: attempt_def)
        from Cons.IH[OF this] obtain new where "es' = (es @ [(extinf, url)]) @ new" by blast
        then have "es' = es @ ((extinf, url) # new)" by simp
        then show ?thesis by blast
      qed
    qed
  qed
qed

lemma emit_streams_grows:
  "emit_streams item ct stream_data es = (raised, es') \<Longrightarrow> \<exists>new. es' = es @ new"
  by (auto simp: emit_streams_def attempt_def split: if_splits sum.splits
        dest: url_stream_loop_grows)

lemma episode_step_grows:
  assumes "episode_step fetch_json item video (es, w) = (raised, (es', w'))"
  shows "\<exists>new. es' = es @ new"
proof (cases "dict_get_default video ''id'' (JStr [])")
  case (Inl e)
  with assms show ?thesis by (simp add: episode_step_def attempt_def)
next
  case (Inr video_id)
  show ?thesis
  proof (cases "truthy video_id")
    case False
    with assms Inr show ?thesis by (simp add: episode_step_def attempt_def)
  next
    case True
    obtain sd w1 where f: "fetch_json (stream_url ''series'' video_id) w = (sd, w1)"
      by (cases "fetch_json (stream_url ''series'' video_id) w")
    obtain r es1 where e: "emit_streams item ''series'' sd es = (r, es1)"
      by (cases "emit_streams item ''series'' sd es")
    from assms Inr True f e have "es' = es1" by (simp add: episode_step_def attempt_def)
    with emit_streams_grows[OF e] show ?thesis by simp
  qed
qed



lemma episodes_loop_grows:
  "episodes_loop fetch_json item vs s = (raised, s') \<Longrightarrow> \<exists>new. fst s' = fst s @ new"
proof (induction vs arbitrary: s)
  case Nil
  then show ?case by simp
next
  case (Cons v vs)
  obtain es w where s: "s = (es, w)" by (cases s)
  obtain r es1 w1 where st: "episode_step fetch_json item v (es, w) = (r, (es1, w1))"
    by (cases "episode_step fetch_json item v (es, w)") auto
  from episode_step_grows[OF st] obtain new1 where n1: "es1 = es @ new1" by blast
  show ?case
  proof (cases r)
    case None
    with Cons.prems st have "episodes_loop fetch_json item vs (es1, w1) = (raised, s')"
      by (simp add: s)
    from Cons.IH[OF this] obtain new2 where "fst s' = es1 @ new2" by auto
    with n1 have "fst s' = fst s @ (new1 @ new2)" by (simp add: s)
    then show ?thesis by blast
  next
    case (Some e)
    with Cons.prems st have "s' = (es1, w1)" by (simp add: s)
    with n1 show ?thesis by (simp add: s)
  qed
qed

lemma series_meta_body_unfold:
  assumes "fetch_json (meta_url ''series'' meta_id) w = (md, w1)"
  shows "series_meta_body fetch_json meta_id (es, w) =
     (if \<not> truthy md then (None, (es, w1))
      else attempt (dict_get md ''meta'') (es, w1) (\<lambda>item.
          if \<not> truthy item then (None, (es, w1))
          else attempt (dict_get item ''videos'') (es, w1) (\<lambda>videos.
              if \<not> truthy videos then (None, (es, w1))
              else attempt (py_iter videos) (es, w1) (\<lambda>vs.
                  episodes_loop fetch_json item vs (es, w1)))))"
  using assms by (simp add: series_meta_body_def)

lemma series_meta_body_grows:
  assumes "series_meta_body fetch_json meta_id (es, w) = (raised, s')"
  shows "\<exists>new. fst s' = es @ new"
proof -
  obtain md w1 where f: "fetch_json (meta_url ''series'' meta_id) w = (md, w1)"
    by (cases "fetch_json (meta_url ''series'' meta_id) w")
  note unf = series_meta_body_unfold[where fetch_json = fetch_json and meta_id = meta_id and w = w
      and es = es, OF f]
  show ?thesis
  proof (cases "truthy md")
    case False
    with assms show ?thesis by (auto simp: unf)
  next
    case True
    show ?thesis
    proof (cases "dict_get md ''meta''")
      case (Inl e)
      with assms True show ?thesis by (auto simp: unf attempt_def)
    next
      case (Inr item)
      show ?thesis
      proof (cases "truthy item")
        case False
        with assms True Inr show ?thesis by (auto simp: unf attempt_def)
      next
        case t: True
        show ?thesis
        proof (cases "dict_get item ''videos''")
          case (Inl e)
          with assms True Inr t show ?thesis by (auto simp: unf attempt_def)
        next
          case v: (Inr videos)
          show ?thesis
          proof (cases "truthy videos")
            case False
            with assms True Inr t v show ?thesis by (auto simp: unf attempt_def)
          next
            case tv: True
            show ?thesis
            proof (cases "py_iter videos")
              case (Inl e)
              with assms True Inr t v tv show ?thesis by (auto simp: unf attempt_def)
            next
              case i: (Inr vs)
              with assms True Inr t v tv
              have "episodes_loop fetch_json item vs (es, w1) = (raised, s')"
                by (simp add: unf attempt_def)
              from episodes_loop_grows[OF this] show ?thesis by simp
            qed
          qed
        qed
      qed
    qed
  qed
qed

lemma series_meta_step_grows:
  assumes "series_meta_step fetch_json meta s = Inr s'"
  shows "\<exists>new. fst s' = fst s @ new"
proof (cases "dict_get_default meta ''id'' (JStr [])")
  case (Inl e)
  with assms show ?thesis by (simp add: series_meta_step_def)
next
  case (Inr meta_id)
  obtain es w where s: "s = (es, w)" by (cases s)
  from assms Inr
  have m: "s' = (if truthy meta_id then snd (series_meta_body fetch_json meta_id s) else s)"
    by (auto simp: series_meta_step_def split: if_splits)
  show ?thesis
  proof (cases "truthy meta_id")
    case False
    with m show ?thesis by simp
  next
    case True
    obtain r s1 where b: "series_meta_body fetch_json meta_id (es, w) = (r, s1)"
      by (cases "series_meta_body fetch_json meta_id (es, w)")
    with m True have "s' = s1" by (simp add: s)
    with series_meta_body_grows[OF b] show ?thesis by (simp add: s)
  qed
qed

lemma movie_meta_body_grows:
  assumes "movie_meta_body fetch_json meta_id (es, w) = (raised, (es', w'))"
  shows "\<exists>new. es' = es @ new"
proof -
  obtain md w1 where f: "fetch_json (meta_url ''movie'' meta_id) w = (md, w1)"
    by (cases "fetch_json (meta_url ''movie'' meta_id) w")
  show ?thesis
  proof (cases "truthy md")
    case False
    with assms f show ?thesis by (simp add: movie_meta_body_def)
  next
    case True
    show ?thesis
    proof (cases "dict_get md ''meta''")
      case (Inl e)
      with assms f True show ?thesis by (simp add: movie_meta_body_def attempt_def)
    next
      case (Inr item)
      show ?thesis
      proof (cases "truthy item")
        case False
        with assms f True Inr show ?thesis by (simp add: movie_meta_body_def attempt_def)
      next
        case t: True
        obtain sd w2 where f2: "fetch_json (stream_url ''movie'' meta_id) w1 = (sd, w2)"
          by (cases "fetch_json (stream_url ''movie'' meta_id) w1")
        obtain r es1 where e: "emit_streams item ''movie'' sd es = (r, es1)"
          by (cases "emit_streams item ''movie'' sd es")
        from assms f True Inr t f2 e have "es' = es1"
          by (simp add: movie_meta_body_def attempt_def)
        with emit_streams_grows[OF e] show ?thesis by simp
      qed
    qed
  qed
qed

lemma movie_meta_step_grows:
  assumes "movie_meta_step fetch_json meta s = Inr s'"
  shows "\<exists>new. fst s' = fst s @ new"
proof (cases "dict_get_default meta ''id'' (JStr [])")
  case (Inl e)
  with assms show ?thesis by (simp add: movie_meta_step_def)
next
  case (Inr meta_id)
  obtain es w where s: "s = (es, w)" by (cases s)
  from assms Inr
  have m: "s' = (if truthy meta_id then snd (movie_meta_body fetch_json meta_id s) else s)"
    by (auto simp: movie_meta_step_def split: if_splits)
  show ?thesis
  proof (cases "truthy meta_id")
    case False
    with m show ?thesis by simp
  next
    case True
    obtain r es1 w1 where b: "movie_meta_body fetch_json meta_id (es, w) = (r, (es1, w1))"
      by (cases "movie_meta_body fetch_json meta_id (es, w)") auto
    with m True have "s' = (es1, w1)" by (simp add: s)
    with movie_meta_body_grows[OF b] show ?thesis by (simp add: s)
  qed
qed





section \<open>Removing duplicates keeps first occurrences\<close>

text \<open>What the loop appends to \<open>unique_entries\<close>, from any set of urls seen so far:
  a subsequence of the input, with one entry for each element not seen before, the
  first that has it.\<close>

lemma dedup_loop_spec:
  "\<forall>p\<in>set xs. hashable (snd p) \<Longrightarrow>
   \<exists>ys. dedup_loop xs seen acc = Inr (acc @ ys) \<and> subseq ys xs
      \<and> distinct (map (\<lambda>q. set_key (snd q)) ys)
      \<and> (\<lambda>q. set_key (snd q)) ` set ys = (\<lambda>q. set_key (snd q)) ` set xs - seen
      \<and> (\<forall>p\<in>set ys. find (\<lambda>q. set_key (snd q) = set_key (snd p)) xs = Some p)"
proof (induction xs arbitrary: seen acc)
  case Nil
  then show ?case by simp
next
  case (Cons x xs)
  obtain e u where x: "x = (e, u)" by (cases x)
  from Cons.prems have hu: "hashable u" and hs: "\<forall>p\<in>set xs. hashable (snd p)"
    by (auto simp: x)
  show ?case
  proof (cases "set_key u \<in> seen")
    case True
    from Cons.IH[OF hs, of seen acc] obtain ys where
      ys: "dedup_loop xs seen acc = Inr (acc @ ys)" "subseq ys xs"
          "distinct (map (\<lambda>q. set_key (snd q)) ys)"
          "(\<lambda>q. set_key (snd q)) ` set ys = (\<lambda>q. set_key (snd q)) ` set xs - seen"
          "\<forall>p\<in>set ys. find (\<lambda>q. set_key (snd q) = set_key (snd p)) xs = Some p"
      by blast
    have ne: "\<forall>p\<in>set ys. set_key (snd p) \<noteq> set_key u"
      using ys(4) True by force
    have img: "(\<lambda>q. set_key (snd q)) ` set ys = (\<lambda>q. set_key (snd q)) ` set (x # xs) - seen"
      using ys(4) True by (auto simp: x)
    have fnd: "\<forall>p\<in>set ys. find (\<lambda>q. set_key (snd q) = set_key (snd p)) (x # xs) = Some p"
      using ys(5) ne by (auto simp: x)
    have sub: "subseq ys (x # xs)" using ys(2) by (simp add: x list_emb_Cons)
    have run: "dedup_loop (x # xs) seen acc = Inr (acc @ ys)"
      using ys(1) True hu by (simp add: x)
    from run sub ys(3) img fnd show ?thesis by blast
  next
    case False
    from Cons.IH[OF hs, of "insert (set_key u) seen" "acc @ [(e, u)]"] obtain ys where
      ys: "dedup_loop xs (insert (set_key u) seen) (acc @ [(e, u)]) = Inr ((acc @ [(e, u)]) @ ys)"
          "subseq ys xs"
          "distinct (map (\<lambda>q. set_key (snd q)) ys)"
          "(\<lambda>q. set_key (snd q)) ` set ys = (\<lambda>q. set_key (snd q)) ` set xs - insert (set_key u) seen"
          "\<forall>p\<in>set ys. find (\<lambda>q. set_key (snd q) = set_key (snd p)) xs = Some p"
      by blast
    have ne: "\<forall>p\<in>set ys. set_key (snd p) \<noteq> set_key u"
      using ys(4) by force
    have img: "(\<lambda>q. set_key (snd q)) ` set ((e, u) # ys) = (\<lambda>q. set_key (snd q)) ` set (x # xs) - seen"
      using ys(4) False by (auto simp: x)
    have dist: "distinct (map (\<lambda>q. set_key (snd q)) ((e, u) # ys))"
      using ys(3) ne by auto
    have fnd: "\<forall>p\<in>set ((e, u) # ys). find (\<lambda>q. set_key (snd q) = set_key (snd p)) (x # xs) = Some p"
      using ys(5) ne by (auto simp: x)
    have sub: "subseq ((e, u) # ys) (x # xs)" using ys(2) by (simp add: x)
    have run: "dedup_loop (x # xs) seen acc = Inr (acc @ (e, u) # ys)"
      using ys(1) False hu by (simp add: x)
    from run sub dist img fnd show ?thesis by blast
  qed
qed

text \<open>
  Claim C1. On a sequence of entries whose urls are strings, the deduplicator returns
  the ordered subsequence that keeps the first occurrence of each distinct url: the
  result is a subsequence of the input (so the order of the retained entries is their
  order in the input), no url is retained twice, every url of the input is retained,
  and the entry retained for a url is the first entry of the input with that url,
  whatever headers the later ones have.
\<close>

theorem remove_duplicates_first_occurrence:
  assumes "\<forall>p\<in>set all_entries. \<exists>s. snd p = JStr s"
  shows "\<exists>unique_entries.
           remove_duplicates all_entries = Inr unique_entries
         \<and> subseq unique_entries all_entries
         \<and> distinct (map snd unique_entries)
         \<and> snd ` set unique_entries = snd ` set all_entries
         \<and> (\<forall>p\<in>set unique_entries. find (\<lambda>q. snd q = snd p) all_entries = Some p)"
proof -
  have key: "set_key (snd p) = snd p" if "p \<in> set all_entries" for p
    using assms that by fastforce
  have "\<forall>p\<in>set all_entries. hashable (snd p)"
    using assms by fastforce
  from dedup_loop_spec[OF this, of "{}" "[]"] obtain ys where
    ys: "dedup_loop all_entries {} [] = Inr ys" "subseq ys all_entries"
        "distinct (map (\<lambda>q. set_key (snd q)) ys)"
        "(\<lambda>q. set_key (snd q)) ` set ys = (\<lambda>q. set_key (snd q)) ` set all_entries - {}"
        "\<forall>p\<in>set ys. find (\<lambda>q. set_key (snd q) = set_key (snd p)) all_entries = Some p"
    by auto
  have sub: "p \<in> set all_entries" if "p \<in> set ys" for p
    using list_emb_set[OF ys(2) that] by blast
  have d: "distinct (map snd ys)"
  proof -
    have "map (\<lambda>q. set_key (snd q)) ys = map set_key (map snd ys)" by simp
    with ys(3) show ?thesis by (metis distinct_map)
  qed
  have img: "snd ` set ys = snd ` set all_entries"
  proof -
    have "snd ` set ys = (\<lambda>q. set_key (snd q)) ` set ys"
      by (rule image_cong) (simp_all add: key sub)
    also have "\<dots> = (\<lambda>q. set_key (snd q)) ` set all_entries" using ys(4) by simp
    also have "\<dots> = snd ` set all_entries"
      by (rule image_cong) (simp_all add: key)
    finally show ?thesis .
  qed
  have fnd: "\<forall>p\<in>set ys. find (\<lambda>q. snd q = snd p) all_entries = Some p"
  proof
    fix p assume p: "p \<in> set ys"
    have "find (\<lambda>q. snd q = snd p) all_entries
            = find (\<lambda>q. set_key (snd q) = set_key (snd p)) all_entries"
      by (rule find_cong) (simp_all add: key sub[OF p])
    with ys(5) p show "find (\<lambda>q. snd q = snd p) all_entries = Some p" by simp
  qed
  from ys(1,2) d img fnd show ?thesis
    unfolding remove_duplicates_def by blast
qed

theorem remove_duplicates_first_occurrence_witness:
  "remove_duplicates
     [(''first'', JStr ''http://a''), (''second'', JStr ''http://b''), (''third'', JStr ''http://a'')]
     = Inr [(''first'', JStr ''http://a''), (''second'', JStr ''http://b'')]
   \<and> (\<exists>unique_entries.
           remove_duplicates
             [(''first'', JStr ''http://a''), (''second'', JStr ''http://b''), (''third'', JStr ''http://a'')]
             = Inr unique_entries
         \<and> distinct (map snd unique_entries)
         \<and> find (\<lambda>q. snd q = JStr ''http://a'') unique_entries = Some (''first'', JStr ''http://a''))"
proof -
  have h: "\<forall>p\<in>set [(''first'', JStr ''http://a''), (''second'', JStr ''http://b''),
                     (''third'', JStr ''http://a'')]. \<exists>s. snd p = JStr s"
    by simp
  have e: "remove_duplicates
     [(''first'', JStr ''http://a''), (''second'', JStr ''http://b''), (''third'', JStr ''http://a'')]
     = Inr [(''first'', JStr ''http://a''), (''second'', JStr ''http://b'')]"
    by (simp add: remove_duplicates_def)
  from remove_duplicates_first_occurrence[OF h] e show ?thesis
    by auto
qed



section \<open>The file\<close>

text \<open>The writer appends a header line and a url line for each entry. Every header
  that reaches the writer was built by \<^verbatim>\<open>create_extinf\<close> and begins with the prefix
  token; this holds along the whole pipeline.\<close>

lemma write_entries_concat:
  "write_entries es f
     = f @ concat (map (\<lambda>p. fst p @ [CHR 0x0A] @ py_str (snd p) @ [CHR 0x0A]) es)"
  by (induction es arbitrary: f) auto

lemma split_lines_line:
  "CHR 0x0A \<notin> set l \<Longrightarrow> split_lines cur (l @ CHR 0x0A # rest) = (cur @ l) # split_lines [] rest"
  by (induction l arbitrary: cur) auto

lemma split_lines_entries:
  assumes "\<forall>p\<in>set es. CHR 0x0A \<notin> set (fst p) \<and> CHR 0x0A \<notin> set (py_str (snd p))"
  shows "split_lines [] (concat (map (\<lambda>p. fst p @ [CHR 0x0A] @ py_str (snd p) @ [CHR 0x0A]) es))
           = concat (map (\<lambda>p. [fst p, py_str (snd p)]) es)"
  using assms
proof (induction es)
  case Nil
  show ?case by simp
next
  case (Cons p es)
  let ?rest = "concat (map (\<lambda>p. fst p @ [CHR 0x0A] @ py_str (snd p) @ [CHR 0x0A]) es)"
  from Cons.prems have h: "CHR 0x0A \<notin> set (fst p)" and u: "CHR 0x0A \<notin> set (py_str (snd p))"
    by auto
  have "split_lines [] (fst p @ CHR 0x0A # (py_str (snd p) @ CHR 0x0A # ?rest))
          = fst p # split_lines [] (py_str (snd p) @ CHR 0x0A # ?rest)"
    using split_lines_line[OF h, of "[]"] by simp
  also have "\<dots> = fst p # py_str (snd p) # split_lines [] ?rest"
    using split_lines_line[OF u, of "[]"] by simp
  finally show ?case using Cons by simp
qed

lemma pairs_nth:
  "i < length es \<Longrightarrow>
     concat (map (\<lambda>p. [f p, g p]) es) ! (2 * i) = f (es ! i)
   \<and> concat (map (\<lambda>p. [f p, g p]) es) ! (2 * i + 1) = g (es ! i)"
proof (induction es arbitrary: i)
  case Nil
  then show ?case by simp
next
  case (Cons p es)
  show ?case
  proof (cases i)
    case 0
    then show ?thesis by simp
  next
    case (Suc j)
    with Cons.prems have "j < length es" by simp
    from Cons.IH[OF this] Suc show ?thesis by simp
  qed
qed

lemma dedup_loop_hashable:
  "dedup_loop xs seen acc = Inr r \<Longrightarrow> \<forall>p\<in>set xs. hashable (snd p)"
proof (induction xs arbitrary: seen acc)
  case Nil
  show ?case by simp
next
  case (Cons x xs)
  obtain e u where x: "x = (e, u)" by (cases x)
  from Cons.prems have hu: "hashable u" by (auto simp: x split: if_splits)
  with Cons.prems have "\<exists>seen' acc'. dedup_loop xs seen' acc' = Inr r"
    by (auto simp: x split: if_splits)
  with Cons.IH hu show ?case by (auto simp: x)
qed

lemma remove_duplicates_distinct:
  assumes "remove_duplicates all_entries = Inr es"
  shows "distinct (map snd es) \<and> subseq es all_entries"
proof -
  from assms have "\<forall>p\<in>set all_entries. hashable (snd p)"
    unfolding remove_duplicates_def by (rule dedup_loop_hashable)
  from dedup_loop_spec[OF this, of "{}" "[]"] assms obtain ys where
    ys: "es = ys" "subseq ys all_entries" "distinct (map (\<lambda>q. set_key (snd q)) ys)"
    by (auto simp: remove_duplicates_def)
  have "map (\<lambda>q. set_key (snd q)) ys = map set_key (map snd ys)" by simp
  with ys(3) have "distinct (map snd ys)" by (metis distinct_map)
  with ys show ?thesis by simp
qed

lemma dedup_loop_append:
  "dedup_loop (xs @ ys) seen acc =
     and_then (dedup_loop xs seen acc)
       (\<lambda>acc'. dedup_loop ys (seen \<union> (\<lambda>p. set_key (snd p)) ` set xs) acc')"
proof (induction xs arbitrary: seen acc)
  case Nil
  show ?case by simp
next
  case (Cons x xs)
  obtain e u where x: "x = (e, u)" by (cases x)
  show ?case
  proof (cases "hashable u")
    case False
    then show ?thesis by (simp add: x)
  next
    case True
    show ?thesis
    proof (cases "set_key u \<in> seen")
      case s: True
      then have "seen \<union> (\<lambda>p. set_key (snd p)) ` set (x # xs) = seen \<union> (\<lambda>p. set_key (snd p)) ` set xs"
        by (auto simp: x)
      with True s Cons.IH[of seen acc] show ?thesis by (simp add: x)
    next
      case s: False
      have "seen \<union> (\<lambda>p. set_key (snd p)) ` set (x # xs)
              = insert (set_key u) seen \<union> (\<lambda>p. set_key (snd p)) ` set xs"
        by (auto simp: x)
      with True s Cons.IH[of "insert (set_key u) seen" "acc @ [(e, u)]"] show ?thesis
        by (simp add: x)
    qed
  qed
qed

lemma dedup_loop_fresh:
  "\<forall>p\<in>set b. hashable (snd p) \<Longrightarrow> distinct (map (\<lambda>p. set_key (snd p)) b)
   \<Longrightarrow> (\<lambda>p. set_key (snd p)) ` set b \<inter> seen = {}
   \<Longrightarrow> dedup_loop b seen acc = Inr (acc @ b)"
proof (induction b arbitrary: seen acc)
  case Nil
  show ?case by simp
next
  case (Cons x b)
  obtain e u where x: "x = (e, u)" by (cases x)
  from Cons.prems have h: "hashable u" and n: "set_key u \<notin> seen" by (auto simp: x)
  have "dedup_loop b (insert (set_key u) seen) (acc @ [(e, u)]) = Inr ((acc @ [(e, u)]) @ b)"
  proof (rule Cons.IH)
    show "\<forall>p\<in>set b. hashable (snd p)" using Cons.prems(1) by simp
    show "distinct (map (\<lambda>p. set_key (snd p)) b)" using Cons.prems(2) by simp
    show "(\<lambda>p. set_key (snd p)) ` set b \<inter> insert (set_key u) seen = {}"
      using Cons.prems(2,3) by (auto simp: x)
  qed
  with h n show ?case by (simp add: x)
qed

lemma remove_duplicates_block:
  assumes run: "remove_duplicates (pre @ b @ post) = Inr unique"
    and d: "distinct (map (\<lambda>p. set_key (snd p)) b)"
    and f: "(\<lambda>p. set_key (snd p)) ` set b \<inter> (\<lambda>p. set_key (snd p)) ` set pre = {}"
  shows "\<exists>upre upost. remove_duplicates pre = Inr upre \<and> unique = upre @ b @ upost
          \<and> subseq upost post
          \<and> (\<lambda>p. set_key (snd p)) ` set b \<inter> (\<lambda>p. set_key (snd p)) ` set (upre @ upost) = {}"
proof -
  let ?k = "\<lambda>p. set_key (snd p)"
  from run have hs: "\<forall>p\<in>set (pre @ b @ post). hashable (snd p)"
    unfolding remove_duplicates_def by (rule dedup_loop_hashable)
  have hpre: "\<forall>p\<in>set pre. hashable (snd p)" using hs by simp
  have hb: "\<forall>p\<in>set b. hashable (snd p)" using hs by simp
  have hpost: "\<forall>p\<in>set post. hashable (snd p)" using hs by simp
  from dedup_loop_spec[OF hpre, of "{}" "[]"] obtain upre where
    cpre: "dedup_loop pre {} ([] @ []) = Inr ([] @ upre) \<and> subseq upre pre
      \<and> distinct (map ?k upre)
      \<and> ?k ` set upre = ?k ` set pre - {}
      \<and> (\<forall>p\<in>set upre. find (\<lambda>q. set_key (snd q) = set_key (snd p)) pre = Some p)"
    by (simp only: append_Nil) (rule exE)
  then have upre: "dedup_loop pre {} [] = Inr upre" "subseq upre pre" by simp_all
  have fb: "?k ` set b \<inter> ({} \<union> ?k ` set pre) = {}" using f by simp
  have bb: "dedup_loop b ({} \<union> ?k ` set pre) upre = Inr (upre @ b)"
    using dedup_loop_fresh[OF hb d fb] .
  from dedup_loop_spec[OF hpost, of "({} \<union> ?k ` set pre) \<union> ?k ` set b" "upre @ b"]
  obtain upost where
    cpost: "dedup_loop post (({} \<union> ?k ` set pre) \<union> ?k ` set b) (upre @ b) = Inr ((upre @ b) @ upost)
      \<and> subseq upost post
      \<and> distinct (map ?k upost)
      \<and> ?k ` set upost = ?k ` set post - (({} \<union> ?k ` set pre) \<union> ?k ` set b)
      \<and> (\<forall>p\<in>set upost. find (\<lambda>q. set_key (snd q) = set_key (snd p)) post = Some p)"
    by (rule exE)
  then have upost: "dedup_loop post (({} \<union> ?k ` set pre) \<union> ?k ` set b) (upre @ b) = Inr ((upre @ b) @ upost)"
      "subseq upost post"
      "?k ` set upost = ?k ` set post - (({} \<union> ?k ` set pre) \<union> ?k ` set b)"
    by blast+
  have "dedup_loop (pre @ b @ post) {} [] =
          and_then (dedup_loop pre {} [])
            (\<lambda>acc'. dedup_loop (b @ post) ({} \<union> ?k ` set pre) acc')"
    by (rule dedup_loop_append)
  also have "\<dots> = dedup_loop (b @ post) ({} \<union> ?k ` set pre) upre"
    by (simp only: upre(1) and_then.simps)
  also have "\<dots> = and_then (dedup_loop b ({} \<union> ?k ` set pre) upre)
            (\<lambda>acc'. dedup_loop post (({} \<union> ?k ` set pre) \<union> ?k ` set b) acc')"
    by (rule dedup_loop_append)
  also have "\<dots> = Inr ((upre @ b) @ upost)"
    by (simp only: bb upost(1) and_then.simps)
  finally have "dedup_loop (pre @ b @ post) {} [] = Inr ((upre @ b) @ upost)" .
  with run have u: "unique = upre @ b @ upost" by (simp add: remove_duplicates_def)
  have sub: "?k ` set upre \<subseteq> ?k ` set pre" using upre(2) by (auto dest: list_emb_set)
  have u3: "?k ` set upost = ?k ` set post - (?k ` set pre \<union> ?k ` set b)"
    using upost(3) by simp
  have e: "?k ` set (upre @ upost) = ?k ` set upre \<union> ?k ` set upost" by (simp add: image_Un)
  have gen: "A \<inter> B = {} \<Longrightarrow> D = X - (B \<union> A) \<Longrightarrow> C \<subseteq> B \<Longrightarrow> A \<inter> (C \<union> D) = {}"
    for A B C D X :: "json set"
    by blast
  have disj: "?k ` set b \<inter> ?k ` set (upre @ upost) = {}"
    unfolding e by (rule gen[OF f u3 sub])
  have r1: "remove_duplicates pre = Inr upre" using upre(1) by (simp add: remove_duplicates_def)
  have "remove_duplicates pre = Inr upre \<and> unique = upre @ b @ upost
          \<and> subseq upost post \<and> ?k ` set b \<inter> ?k ` set (upre @ upost) = {}"
    using r1 u upost(2) disj by (intro conjI)
  then show ?thesis by (intro exI)
qed

lemma create_extinf_prefix: "create_extinf item ct = Inr h \<Longrightarrow> prefix ''#EXTINF:-1 '' h"
proof -
  assume a: "create_extinf item ct = Inr h"
  then obtain kvs where item: "item = JObj kvs" by (auto dest: create_extinf_Inr_JObj)
  from a obtain tid where tid: "tmdb_id (JObj kvs) = Inr tid"
    by (cases "tmdb_id (JObj kvs)") (simp_all add: item create_extinf_JObj)
  show ?thesis
  proof (cases tid)
    case None
    with a tid show ?thesis by (auto simp: item create_extinf_JObj)
  next
    case (Some t)
    with a tid show ?thesis by (cases "t = []") (auto simp: item create_extinf_JObj)
  qed
qed

lemma and_then_InrE:
  assumes "and_then m f = Inr y"
  obtains x where "m = Inr x" "f x = Inr y"
  using assms by (cases m) auto

lemma ext_headers_append: "ext_headers (es @ new) \<longleftrightarrow> ext_headers es \<and> ext_headers new"
  by (simp add: ext_headers_def)

lemma stream_loop_headers:
  assumes "stream_loop item ct ss es = Inr es'" "ext_headers es"
  shows "ext_headers es'"
proof -
  from stream_loop_Inr[OF assms(1)] obtain new where
    new: "es' = es @ new" "\<forall>p\<in>set new. create_extinf item ct = Inr (fst p)" by blast
  from new(2) have "ext_headers new"
    by (auto simp: ext_headers_def list_all_iff dest: create_extinf_prefix)
  with assms(2) new(1) show ?thesis by (simp add: ext_headers_append)
qed

lemma movie_step_headers:
  assumes "movie_step movie s = Inr s'" "ext_headers (fst s)"
  shows "ext_headers (fst s')"
proof -
  obtain es n where s: "s = (es, n)" by (cases s)
  from assms(1)[unfolded s] obtain c where c: "dict_get movie ''category'' = Inr c"
    by (cases "dict_get movie ''category''") auto
  show ?thesis
  proof (cases "c \<in> JStr ` set domestic_categories")
    case False
    with assms c show ?thesis by (auto simp: s)
  next
    case True
    from c obtain kvs where "movie = JObj kvs" by (auto dest: dict_get_JObj)
    then obtain st where st: "dict_get movie ''streams'' = Inr st" by simp
    show ?thesis
    proof (cases "truthy st")
      case False
      with assms st show ?thesis using movie_step_no_streams[OF st False, of es n] by (simp add: s)
    next
      case t: True
      from assms(1) movie_step_kept[OF c True st t, of es n]
      have run: "and_then (py_iter st) (\<lambda>ss. and_then (stream_loop movie ''movie'' ss es)
                    (\<lambda>es'. Inr (es', n + 1))) = Inr s'"
        by (simp add: s)
      then obtain ss where ss: "py_iter st = Inr ss"
        and r2: "and_then (stream_loop movie ''movie'' ss es) (\<lambda>es'. Inr (es', n + 1)) = Inr s'"
        by (rule and_then_InrE)
      from r2 obtain es' where e: "stream_loop movie ''movie'' ss es = Inr es'" and "Inr (es', n + 1) = (Inr s' :: (entry list \<times> nat) result)"
        by (rule and_then_InrE)
      then have "fst s' = es'" by auto
      with stream_loop_headers[OF e] assms(2) show ?thesis by (simp add: s)
    qed
  qed
qed

lemma series_step_headers:
  assumes "series_step sitem s = Inr s'" "ext_headers (fst s)"
  shows "ext_headers (fst s')"
proof -
  obtain es n where s: "s = (es, n)" by (cases s)
  from assms(1)[unfolded s] obtain st where st: "dict_get sitem ''streams'' = Inr st"
    by (cases "dict_get sitem ''streams''") auto
  show ?thesis
  proof (cases "truthy st")
    case False
    with assms st show ?thesis by (simp add: s)
  next
    case t: True
    from assms(1) series_step_kept[OF st t, of es n]
    have run: "and_then (py_iter st) (\<lambda>ss. and_then (stream_loop sitem ''series'' ss es)
                  (\<lambda>es'. Inr (es', n + 1))) = Inr s'"
      by (simp add: s)
    then obtain ss where ss: "py_iter st = Inr ss"
      and r2: "and_then (stream_loop sitem ''series'' ss es) (\<lambda>es'. Inr (es', n + 1)) = Inr s'"
      by (rule and_then_InrE)
    from r2 obtain es' where e: "stream_loop sitem ''series'' ss es = Inr es'" and "Inr (es', n + 1) = (Inr s' :: (entry list \<times> nat) result)"
      by (rule and_then_InrE)
    then have "fst s' = es'" by auto
    with stream_loop_headers[OF e] assms(2) show ?thesis by (simp add: s)
  qed
qed

lemma for_each_invariant:
  assumes "\<And>x s s'. body x s = Inr s' \<Longrightarrow> I s \<Longrightarrow> I s'"
  shows "for_each body xs s = Inr s' \<Longrightarrow> I s \<Longrightarrow> I s'"
proof (induction xs arbitrary: s)
  case Nil
  then show ?case by simp
next
  case (Cons x xs)
  from Cons.prems(1) obtain s1 where s1: "body x s = Inr s1" "for_each body xs s1 = Inr s'"
    by (cases "body x s") auto
  from assms[OF s1(1) Cons.prems(2)] have "I s1" .
  from Cons.IH[OF s1(2) this] show ?case .
qed

lemma static_catalog_headers:
  assumes "static_catalog baubau_data es = Inr (es', m, n)" "ext_headers es"
  shows "ext_headers es'"
proof (cases "truthy baubau_data")
  case False
  with assms show ?thesis by (simp add: static_catalog_def)
next
  case True
  with assms(1) have run:
    "and_then (dict_get_default baubau_data ''movies'' (JArr [])) (\<lambda>movies.
        and_then (py_iter movies) (\<lambda>ms.
        and_then (for_each movie_step ms (es, 0)) (\<lambda>(entries1, movie_count).
        and_then (dict_get_default baubau_data ''series'' (JArr [])) (\<lambda>series.
        and_then (py_iter series) (\<lambda>ss.
        and_then (for_each series_step ss (entries1, 0)) (\<lambda>(entries2, series_count).
          Inr (entries2, movie_count, series_count))))))) = Inr (es', m, n)"
    by (simp add: static_catalog_def)
  then obtain movies where
    r1: "and_then (py_iter movies) (\<lambda>ms.
        and_then (for_each movie_step ms (es, 0)) (\<lambda>(entries1, movie_count).
        and_then (dict_get_default baubau_data ''series'' (JArr [])) (\<lambda>series.
        and_then (py_iter series) (\<lambda>ss.
        and_then (for_each series_step ss (entries1, 0)) (\<lambda>(entries2, series_count).
          Inr (entries2, movie_count, series_count)))))) = Inr (es', m, n)"
    by (rule and_then_InrE)
  then obtain ms where
    r2: "and_then (for_each movie_step ms (es, 0)) (\<lambda>(entries1, movie_count).
        and_then (dict_get_default baubau_data ''series'' (JArr [])) (\<lambda>series.
        and_then (py_iter series) (\<lambda>ss.
        and_then (for_each series_step ss (entries1, 0)) (\<lambda>(entries2, series_count).
          Inr (entries2, movie_count, series_count))))) = Inr (es', m, n)"
    by (rule and_then_InrE)
  then obtain s1 where m1: "for_each movie_step ms (es, 0) = Inr s1"
    and r3: "(\<lambda>(entries1, movie_count).
        and_then (dict_get_default baubau_data ''series'' (JArr [])) (\<lambda>series.
        and_then (py_iter series) (\<lambda>ss.
        and_then (for_each series_step ss (entries1, 0)) (\<lambda>(entries2, series_count).
          Inr (entries2, movie_count, series_count))))) s1 = Inr (es', m, n)"
    by (rule and_then_InrE)
  obtain entries1 movie_count where s1: "s1 = (entries1, movie_count)" by (cases s1)
  have e1: "ext_headers entries1"
    using for_each_invariant[where I = "\<lambda>s. ext_headers (fst s)" and body = movie_step,
            OF movie_step_headers m1] assms(2)
    by (simp add: s1)
  from r3 have "and_then (dict_get_default baubau_data ''series'' (JArr [])) (\<lambda>series.
        and_then (py_iter series) (\<lambda>ss.
        and_then (for_each series_step ss (entries1, 0)) (\<lambda>(entries2, series_count).
          Inr (entries2, movie_count, series_count)))) = Inr (es', m, n)"
    by (simp add: s1)
  then obtain sv where
    r4: "and_then (py_iter sv) (\<lambda>ss.
        and_then (for_each series_step ss (entries1, 0)) (\<lambda>(entries2, series_count).
          Inr (entries2, movie_count, series_count))) = Inr (es', m, n)"
    by (rule and_then_InrE)
  then obtain ss where
    r5: "and_then (for_each series_step ss (entries1, 0)) (\<lambda>(entries2, series_count).
          Inr (entries2, movie_count, series_count)) = Inr (es', m, n)"
    by (rule and_then_InrE)
  then obtain s2 where m2: "for_each series_step ss (entries1, 0) = Inr s2"
    and r6: "(\<lambda>(entries2, series_count). Inr (entries2, movie_count, series_count)) s2
               = (Inr (es', m, n) :: (entry list \<times> nat \<times> nat) result)"
    by (rule and_then_InrE)
  from r6 have "fst s2 = es'" by (cases s2) simp
  moreover have "ext_headers (fst s2)"
    using for_each_invariant[where I = "\<lambda>s. ext_headers (fst s)" and body = series_step,
            OF series_step_headers m2] e1
    by simp
  ultimately show ?thesis by simp
qed

lemma url_stream_loop_headers:
  "url_stream_loop item ct ss es = (raised, es') \<Longrightarrow> ext_headers es \<Longrightarrow> ext_headers es'"
proof (induction ss arbitrary: es)
  case Nil
  then show ?case by simp
next
  case (Cons s ss)
  show ?case
  proof (cases "dict_get s ''url''")
    case (Inl e)
    with Cons.prems show ?thesis by (simp add: attempt_def)
  next
    case (Inr url)
    show ?thesis
    proof (cases "truthy url")
      case False
      with Cons.prems Inr have "url_stream_loop item ct ss es = (raised, es')"
        by (simp add: attempt_def)
      from Cons.IH[OF this Cons.prems(2)] show ?thesis .
    next
      case True
      show ?thesis
      proof (cases "create_extinf item ct")
        case (Inl e)
        with Cons.prems Inr True show ?thesis by (simp add: attempt_def)
      next
        case h: (Inr extinf)
        with Cons.prems Inr True
        have r: "url_stream_loop item ct ss (es @ [(extinf, url)]) = (raised, es')"
          by (simp add: attempt_def)
        have "ext_headers (es @ [(extinf, url)])"
          using Cons.prems(2) create_extinf_prefix[OF h]
          by (simp add: ext_headers_def)
        from Cons.IH[OF r this] show ?thesis .
      qed
    qed
  qed
qed

lemma emit_streams_headers:
  "emit_streams item ct stream_data es = (raised, es') \<Longrightarrow> ext_headers es \<Longrightarrow> ext_headers es'"
  by (auto simp: emit_streams_def attempt_def split: if_splits sum.splits
        dest: url_stream_loop_headers)

lemma movie_meta_body_headers:
  assumes "movie_meta_body fetch_json meta_id (es, w) = (raised, (es', w'))" "ext_headers es"
  shows "ext_headers es'"
proof -
  obtain md w1 where f: "fetch_json (meta_url ''movie'' meta_id) w = (md, w1)"
    by (cases "fetch_json (meta_url ''movie'' meta_id) w")
  show ?thesis
  proof (cases "truthy md")
    case False
    with assms f show ?thesis by (simp add: movie_meta_body_def)
  next
    case True
    show ?thesis
    proof (cases "dict_get md ''meta''")
      case (Inl e)
      with assms f True show ?thesis by (simp add: movie_meta_body_def attempt_def)
    next
      case (Inr item)
      show ?thesis
      proof (cases "truthy item")
        case False
        with assms f True Inr show ?thesis by (simp add: movie_meta_body_def attempt_def)
      next
        case t: True
        obtain sd w2 where f2: "fetch_json (stream_url ''movie'' meta_id) w1 = (sd, w2)"
          by (cases "fetch_json (stream_url ''movie'' meta_id) w1")
        obtain r es1 where e: "emit_streams item ''movie'' sd es = (r, es1)"
          by (cases "emit_streams item ''movie'' sd es")
        from assms(1) f True Inr t f2 e have "es' = es1"
          by (simp add: movie_meta_body_def attempt_def)
        with emit_streams_headers[OF e assms(2)] show ?thesis by simp
      qed
    qed
  qed
qed

lemma movie_meta_step_headers:
  assumes "movie_meta_step fetch_json meta s = Inr s'" "ext_headers (fst s)"
  shows "ext_headers (fst s')"
proof (cases "dict_get_default meta ''id'' (JStr [])")
  case (Inl e)
  with assms(1) show ?thesis by (simp add: movie_meta_step_def)
next
  case (Inr meta_id)
  obtain es w where s: "s = (es, w)" by (cases s)
  from assms(1) Inr
  have m: "s' = (if truthy meta_id then snd (movie_meta_body fetch_json meta_id s) else s)"
    by (auto simp: movie_meta_step_def split: if_splits)
  show ?thesis
  proof (cases "truthy meta_id")
    case False
    with m assms(2) show ?thesis by simp
  next
    case True
    obtain r es1 w1 where b: "movie_meta_body fetch_json meta_id (es, w) = (r, (es1, w1))"
      by (cases "movie_meta_body fetch_json meta_id (es, w)") auto
    with m True have "s' = (es1, w1)" by (simp add: s)
    with movie_meta_body_headers[OF b] assms(2) show ?thesis by (simp add: s)
  qed
qed

lemma episode_step_headers:
  assumes "episode_step fetch_json item video (es, w) = (raised, (es', w'))" "ext_headers es"
  shows "ext_headers es'"
proof (cases "dict_get_default video ''id'' (JStr [])")
  case (Inl e)
  with assms show ?thesis by (simp add: episode_step_def attempt_def)
next
  case (Inr video_id)
  show ?thesis
  proof (cases "truthy video_id")
    case False
    with assms Inr show ?thesis by (simp add: episode_step_def attempt_def)
  next
    case True
    obtain sd w1 where f: "fetch_json (stream_url ''series'' video_id) w = (sd, w1)"
      by (cases "fetch_json (stream_url ''series'' video_id) w")
    obtain r es1 where e: "emit_streams item ''series'' sd es = (r, es1)"
      by (cases "emit_streams item ''series'' sd es")
    from assms(1) Inr True f e have "es' = es1" by (simp add: episode_step_def attempt_def)
    with emit_streams_headers[OF e assms(2)] show ?thesis by simp
  qed
qed

lemma episodes_loop_headers:
  "episodes_loop fetch_json item vs s = (raised, s') \<Longrightarrow> ext_headers (fst s) \<Longrightarrow> ext_headers (fst s')"
proof (induction vs arbitrary: s)
  case Nil
  then show ?case by simp
next
  case (Cons v vs)
  obtain es w where s: "s = (es, w)" by (cases s)
  obtain r es1 w1 where st: "episode_step fetch_json item v (es, w) = (r, (es1, w1))"
    by (cases "episode_step fetch_json item v (es, w)") auto
  have h1: "ext_headers (fst (es1, w1))"
    using episode_step_headers[OF st] Cons.prems(2) by (simp add: s)
  show ?case
  proof (cases r)
    case None
    with Cons.prems(1) st have "episodes_loop fetch_json item vs (es1, w1) = (raised, s')"
      by (simp add: s)
    from Cons.IH[OF this h1] show ?thesis .
  next
    case (Some e)
    with Cons.prems(1) st have "s' = (es1, w1)" by (simp add: s)
    with h1 show ?thesis by simp
  qed
qed

lemma series_meta_body_headers:
  assumes "series_meta_body fetch_json meta_id (es, w) = (raised, s')" "ext_headers es"
  shows "ext_headers (fst s')"
proof -
  obtain md w1 where f: "fetch_json (meta_url ''series'' meta_id) w = (md, w1)"
    by (cases "fetch_json (meta_url ''series'' meta_id) w")
  show ?thesis
  proof (cases "truthy md")
    case False
    with assms f show ?thesis by (auto simp: series_meta_body_def)
  next
    case True
    show ?thesis
    proof (cases "dict_get md ''meta''")
      case (Inl e)
      with assms f True show ?thesis by (auto simp: series_meta_body_def attempt_def)
    next
      case (Inr item)
      show ?thesis
      proof (cases "truthy item")
        case False
        with assms f True Inr show ?thesis by (auto simp: series_meta_body_def attempt_def)
      next
        case t: True
        show ?thesis
        proof (cases "dict_get item ''videos''")
          case (Inl e)
          with assms f True Inr t show ?thesis by (auto simp: series_meta_body_def attempt_def)
        next
          case v: (Inr videos)
          show ?thesis
          proof (cases "truthy videos")
            case False
            with assms f True Inr t v show ?thesis by (auto simp: series_meta_body_def attempt_def)
          next
            case tv: True
            show ?thesis
            proof (cases "py_iter videos")
              case (Inl e)
              with assms f True Inr t v tv show ?thesis
                by (auto simp: series_meta_body_def attempt_def)
            next
              case i: (Inr vs)
              with assms(1) f True Inr t v tv
              have "episodes_loop fetch_json item vs (es, w1) = (raised, s')"
                by (simp add: series_meta_body_def attempt_def)
              from episodes_loop_headers[OF this] assms(2) show ?thesis by simp
            qed
          qed
        qed
      qed
    qed
  qed
qed

lemma series_meta_step_headers:
  assumes "series_meta_step fetch_json meta s = Inr s'" "ext_headers (fst s)"
  shows "ext_headers (fst s')"
proof (cases "dict_get_default meta ''id'' (JStr [])")
  case (Inl e)
  with assms(1) show ?thesis by (simp add: series_meta_step_def)
next
  case (Inr meta_id)
  obtain es w where s: "s = (es, w)" by (cases s)
  from assms(1) Inr
  have m: "s' = (if truthy meta_id then snd (series_meta_body fetch_json meta_id s) else s)"
    by (auto simp: series_meta_step_def split: if_splits)
  show ?thesis
  proof (cases "truthy meta_id")
    case False
    with m assms(2) show ?thesis by simp
  next
    case True
    obtain r s1 where b: "series_meta_body fetch_json meta_id (es, w) = (r, s1)"
      by (cases "series_meta_body fetch_json meta_id (es, w)")
    with m True have "s' = s1" by (simp add: s)
    with series_meta_body_headers[OF b] assms(2) show ?thesis by (simp add: s)
  qed
qed

lemma page_turn_invariant:
  assumes step: "\<And>x s s'. meta_step x s = Inr s' \<Longrightarrow> P (fst s) \<Longrightarrow> P (fst s')"
    and t: "page_turn url_of meta_step fetch_json s = Inr t"
    and h: "P (fst (snd (snd s)))"
  shows "P (fst (snd (snd (case t of Break r \<Rightarrow> r | Continue r \<Rightarrow> r))))"
proof -
  obtain skip loaded es w where s: "s = (skip, loaded, es, w)" by (cases s)
  obtain page w1 where f: "fetch_json (url_of skip) w = (page, w1)"
    by (cases "fetch_json (url_of skip) w")
  show ?thesis
  proof (cases t)
    case (Break r)
    with t have "page_turn url_of meta_step fetch_json (skip, loaded, es, w) = Inr (Break r)"
      by (simp add: s)
    then have "r = (skip, loaded, es, w1)"
      using page_turn_Break_iff[where fetch_json = fetch_json and url_of = url_of, OF f] by blast
    with h Break show ?thesis by (simp add: s)
  next
    case (Continue r)
    with t have "page_turn url_of meta_step fetch_json (skip, loaded, es, w) = Inr (Continue r)"
      by (simp add: s)
    from page_turn_Continue[where fetch_json = fetch_json and url_of = url_of, OF this]
    obtain ms w1' es' w2 n where
      fe: "for_each meta_step ms (es, w1') = Inr (es', w2)" and r: "r = (skip + 100, loaded + n, es', w2)"
      by blast
    have "P (fst (es', w2))"
      using for_each_invariant[where I = "\<lambda>s. P (fst s)" and body = meta_step,
              OF step fe] h
      by (simp add: s)
    with Continue r show ?thesis by simp
  qed
qed

lemma page_turn_headers:
  assumes step: "\<And>x s s'. meta_step x s = Inr s' \<Longrightarrow> ext_headers (fst s) \<Longrightarrow> ext_headers (fst s')"
    and t: "page_turn url_of meta_step fetch_json s = Inr t"
    and h: "ext_headers (fst (snd (snd s)))"
  shows "ext_headers (fst (snd (snd (case t of Break r \<Rightarrow> r | Continue r \<Rightarrow> r))))"
  using assms by (rule page_turn_invariant[where P = ext_headers])

lemma turns_invariant:
  assumes "\<And>s t. turn s = Inr t \<Longrightarrow> I s \<Longrightarrow> I (case t of Break r \<Rightarrow> r | Continue r \<Rightarrow> r)"
  shows "turns turn k s = Some s' \<Longrightarrow> I s \<Longrightarrow> I s'"
proof (induction k arbitrary: s)
  case 0
  then show ?case by simp
next
  case (Suc k)
  from Suc.prems(1) obtain s1 where s1: "turn s = Inr (Continue s1)" "turns turn k s1 = Some s'"
    by (auto split: sum.splits turn.splits)
  from assms[of s "Continue s1"] s1(1) Suc.prems(2) have "I s1" by simp
  from Suc.IH[OF s1(2) this] show ?case .
qed

lemma paginate_invariant:
  assumes inv: "\<And>s t. turn s = Inr t \<Longrightarrow> I s \<Longrightarrow> I (case t of Break r \<Rightarrow> r | Continue r \<Rightarrow> r)"
    and run: "paginate turn s = Some (Inr r)" and start: "I s"
  shows "I r"
proof -
  from run obtain k s' where k: "turns turn k s = Some s'" "turn s' = Inr (Break r)"
    using paginate_Inr_iff[of turn s r] by blast
  have "I s'" using turns_invariant[where I = I and turn = turn, OF inv k(1) start] .
  from inv[of s' "Break r"] k(2) this show ?thesis by simp
qed

lemma domaci_movies_headers:
  assumes "domaci_movies fetch_json (es, w) = Some (Inr (skip, loaded, es', w'))" "ext_headers es"
  shows "ext_headers es'"
proof -
  have "ext_headers (fst (snd (snd (skip, loaded, es', w'))))"
  proof (rule paginate_invariant[where I = "\<lambda>s. ext_headers (fst (snd (snd s)))"
        and turn = "movies_turn fetch_json" and s = "(0, 0, es, w)"])
    fix s t
    assume "movies_turn fetch_json s = Inr t" "ext_headers (fst (snd (snd s)))"
    then show "ext_headers (fst (snd (snd (case t of Break r \<Rightarrow> r | Continue r \<Rightarrow> r))))"
      unfolding movies_turn_def
      by (rule page_turn_headers[where meta_step = "movie_meta_step fetch_json", rotated])
         (rule movie_meta_step_headers)
  next
    show "paginate (movies_turn fetch_json) (0, 0, es, w) = Some (Inr (skip, loaded, es', w'))"
      using assms(1) by (simp add: domaci_movies_def)
  next
    show "ext_headers (fst (snd (snd (0::nat, 0::nat, es, w))))" using assms(2) by simp
  qed
  then show ?thesis by simp
qed

lemma domaci_series_headers:
  assumes "domaci_series fetch_json (es, w) = Some (Inr (skip, loaded, es', w'))" "ext_headers es"
  shows "ext_headers es'"
proof -
  have "ext_headers (fst (snd (snd (skip, loaded, es', w'))))"
  proof (rule paginate_invariant[where I = "\<lambda>s. ext_headers (fst (snd (snd s)))"
        and turn = "series_turn fetch_json" and s = "(0, 0, es, w)"])
    fix s t
    assume "series_turn fetch_json s = Inr t" "ext_headers (fst (snd (snd s)))"
    then show "ext_headers (fst (snd (snd (case t of Break r \<Rightarrow> r | Continue r \<Rightarrow> r))))"
      unfolding series_turn_def
      by (rule page_turn_headers[where meta_step = "series_meta_step fetch_json", rotated])
         (rule series_meta_step_headers)
  next
    show "paginate (series_turn fetch_json) (0, 0, es, w) = Some (Inr (skip, loaded, es', w'))"
      using assms(1) by (simp add: domaci_series_def)
  next
    show "ext_headers (fst (snd (snd (0::nat, 0::nat, es, w))))" using assms(2) by simp
  qed
  then show ?thesis by simp
qed

lemma main_output:
  assumes "main fetch_json w0 = Some (Inr ((file, stats), w'))"
  shows "\<exists>all_entries unique.
           remove_duplicates all_entries = Inr unique \<and> ext_headers all_entries
         \<and> file = m3u_file unique \<and> total stats = int (length unique)"
proof -
  obtain bd w1 where f: "fetch_json baubau_url w0 = (bd, w1)" by (cases "fetch_json baubau_url w0")
  from assms f obtain e1 mc sc where a1: "static_catalog bd [] = Inr (e1, mc, sc)"
    by (cases "static_catalog bd []") (auto simp: main_def)
  have h1: "ext_headers e1"
    using static_catalog_headers[OF a1] by (simp add: ext_headers_def)
  from assms f a1 obtain k2 n2 e2 w2 where a2: "domaci_movies fetch_json (e1, w1) = Some (Inr (k2, n2, e2, w2))"
    by (cases "domaci_movies fetch_json (e1, w1)") (auto simp: main_def split: sum.splits)
  have h2: "ext_headers e2" using domaci_movies_headers[OF a2 h1] .
  from assms f a1 a2 obtain k3 n3 e3 w3 where a3: "domaci_series fetch_json (e2, w2) = Some (Inr (k3, n3, e3, w3))"
    by (cases "domaci_series fetch_json (e2, w2)") (auto simp: main_def split: sum.splits)
  have h3: "ext_headers e3" using domaci_series_headers[OF a3 h2] .
  from assms f a1 a2 a3
  have r: "and_then (remove_duplicates e3) (\<lambda>unique_entries.
             and_then (statistics unique_entries) (\<lambda>stats.
               Inr ((m3u_file unique_entries, stats), w3))) = Inr ((file, stats), w')"
    by (simp add: main_def)
  then obtain unique where u: "remove_duplicates e3 = Inr unique"
    and r2: "and_then (statistics unique) (\<lambda>stats. Inr ((m3u_file unique, stats), w3))
               = Inr ((file, stats), w')"
    by (auto simp: and_then_Inr_iff)
  from r2 have st: "statistics unique = Inr stats" and fl: "file = m3u_file unique"
    by (auto simp: and_then_Inr_iff)
  from st have "total stats = int (length unique)"
    by (auto simp: statistics_def and_then_Inr_iff)
  with u h3 fl show ?thesis by blast
qed

lemma domaci_movies_grows:
  assumes "domaci_movies fetch_json (es, w) = Some (Inr (skip, loaded, es', w'))"
  shows "prefix es es'"
proof -
  have "prefix es (fst (snd (snd (skip, loaded, es', w'))))"
  proof (rule paginate_invariant[where I = "\<lambda>s. prefix es (fst (snd (snd s)))"
        and turn = "movies_turn fetch_json" and s = "(0, 0, es, w)"])
    fix s t
    assume "movies_turn fetch_json s = Inr t" "prefix es (fst (snd (snd s)))"
    then show "prefix es (fst (snd (snd (case t of Break r \<Rightarrow> r | Continue r \<Rightarrow> r))))"
      unfolding movies_turn_def
    proof (rule page_turn_invariant[where meta_step = "movie_meta_step fetch_json"
            and P = "prefix es", rotated])
      fix x s s'
      assume "movie_meta_step fetch_json x s = Inr s'" "prefix es (fst s)"
      with movie_meta_step_grows[of fetch_json x s s'] show "prefix es (fst s')"
        by (auto simp: prefix_def)
    qed
  next
    show "paginate (movies_turn fetch_json) (0, 0, es, w) = Some (Inr (skip, loaded, es', w'))"
      using assms by (simp add: domaci_movies_def)
  next
    show "prefix es (fst (snd (snd (0::nat, 0::nat, es, w))))" by simp
  qed
  then show ?thesis by simp
qed

lemma domaci_series_grows:
  assumes "domaci_series fetch_json (es, w) = Some (Inr (skip, loaded, es', w'))"
  shows "prefix es es'"
proof -
  have "prefix es (fst (snd (snd (skip, loaded, es', w'))))"
  proof (rule paginate_invariant[where I = "\<lambda>s. prefix es (fst (snd (snd s)))"
        and turn = "series_turn fetch_json" and s = "(0, 0, es, w)"])
    fix s t
    assume "series_turn fetch_json s = Inr t" "prefix es (fst (snd (snd s)))"
    then show "prefix es (fst (snd (snd (case t of Break r \<Rightarrow> r | Continue r \<Rightarrow> r))))"
      unfolding series_turn_def
    proof (rule page_turn_invariant[where meta_step = "series_meta_step fetch_json"
            and P = "prefix es", rotated])
      fix x s s'
      assume "series_meta_step fetch_json x s = Inr s'" "prefix es (fst s)"
      with series_meta_step_grows[of fetch_json x s s'] show "prefix es (fst s')"
        by (auto simp: prefix_def)
    qed
  next
    show "paginate (series_turn fetch_json) (0, 0, es, w) = Some (Inr (skip, loaded, es', w'))"
      using assms by (simp add: domaci_series_def)
  next
    show "prefix es (fst (snd (snd (0::nat, 0::nat, es, w))))" by simp
  qed
  then show ?thesis by simp
qed

lemma main_entries:
  assumes "main fetch_json w0 = Some (Inr ((file, stats), w'))"
    and f: "fetch_json baubau_url w0 = (data, w1)"
  shows "\<exists>es1 mc sc later unique.
           static_catalog data [] = Inr (es1, mc, sc)
         \<and> remove_duplicates (es1 @ later) = Inr unique
         \<and> file = m3u_file unique \<and> statistics unique = Inr stats"
proof -
  from assms f obtain e1 mc sc where a1: "static_catalog data [] = Inr (e1, mc, sc)"
    by (cases "static_catalog data []") (auto simp: main_def)
  from assms f a1 obtain k2 n2 e2 w2 where a2: "domaci_movies fetch_json (e1, w1) = Some (Inr (k2, n2, e2, w2))"
    by (cases "domaci_movies fetch_json (e1, w1)") (auto simp: main_def split: sum.splits)
  from assms f a1 a2 obtain k3 n3 e3 w3 where a3: "domaci_series fetch_json (e2, w2) = Some (Inr (k3, n3, e3, w3))"
    by (cases "domaci_series fetch_json (e2, w2)") (auto simp: main_def split: sum.splits)
  from domaci_movies_grows[OF a2] domaci_series_grows[OF a3]
  obtain later where l: "e3 = e1 @ later" by (auto simp: prefix_def)
  from assms f a1 a2 a3
  have r: "and_then (remove_duplicates e3) (\<lambda>unique_entries.
             and_then (statistics unique_entries) (\<lambda>stats.
               Inr ((m3u_file unique_entries, stats), w3))) = Inr ((file, stats), w')"
    by (simp add: main_def)
  then obtain unique where u: "remove_duplicates e3 = Inr unique"
    and r2: "and_then (statistics unique) (\<lambda>stats. Inr ((m3u_file unique, stats), w3))
               = Inr ((file, stats), w')"
    by (auto simp: and_then_Inr_iff)
  from r2 have st: "statistics unique = Inr stats" and fl: "file = m3u_file unique"
    by (auto simp: and_then_Inr_iff)
  from a1 u[unfolded l] fl st show ?thesis by blast
qed

lemma ext_headers_subseq: "subseq ys xs \<Longrightarrow> ext_headers xs \<Longrightarrow> ext_headers ys"
  by (auto simp: ext_headers_def list_all_iff dest: list_emb_set)

lemma m3u_file_concat:
  "m3u_file es = ''#EXTM3U'' @ [CHR 0x0A]
       @ concat (map (\<lambda>p. fst p @ [CHR 0x0A] @ py_str (snd p) @ [CHR 0x0A]) es)"
  by (simp add: m3u_file_def write_entries_concat)

lemma text_lines_m3u_file:
  assumes "\<forall>p\<in>set es. CHR 0x0A \<notin> set (fst p) \<and> CHR 0x0A \<notin> set (py_str (snd p))"
  shows "text_lines (m3u_file es) = ''#EXTM3U'' # concat (map (\<lambda>p. [fst p, py_str (snd p)]) es)"
proof -
  have "CHR 0x0A \<notin> set ''#EXTM3U''" by simp
  from split_lines_line[OF this, of "[]"] split_lines_entries[OF assms]
  show ?thesis by (simp add: text_lines_def m3u_file_concat)
qed

lemma distinct_url_text:
  assumes "distinct (map snd es)" "\<forall>p\<in>set es. \<exists>u. snd p = JStr u"
  shows "distinct (map (\<lambda>p. py_str (snd p)) es)"
proof -
  have "inj_on py_str (set (map snd es))"
  proof (rule inj_onI)
    fix x y assume x: "x \<in> set (map snd es)" and y: "y \<in> set (map snd es)"
      and eq: "py_str x = py_str y"
    from x assms(2) obtain u where u: "x = JStr u" by auto
    from y assms(2) obtain v where v: "y = JStr v" by auto
    from eq show "x = y" by (simp add: u v)
  qed
  with assms(1) have d: "distinct (map py_str (map snd es))"
    unfolding distinct_map[of py_str "map snd es"] by blast
  have eq: "map (\<lambda>p. py_str (snd p)) es = map py_str (map snd es)" by simp
  show ?thesis unfolding eq by (rule d)
qed

text \<open>On a network that has a static catalog and nothing else both paginated loops end
  at their first request, and the run writes the entries of the catalog.\<close>

lemma catalog_net_pages:
  "domaci_movies (catalog_net c) (es, ()) = Some (Inr (0, 0, es, ()))"
  "domaci_series (catalog_net c) (es, ()) = Some (Inr (0, 0, es, ()))"
proof -
  have n: "catalog_url kind cat 0 \<noteq> baubau_url" for kind cat
    by (simp add: catalog_url_def baubau_url_def)
  show "domaci_movies (catalog_net c) (es, ()) = Some (Inr (0, 0, es, ()))"
    unfolding domaci_movies_def
    by (rule paginate_Break) (simp add: movies_turn_def page_turn_def catalog_net_def n)
  show "domaci_series (catalog_net c) (es, ()) = Some (Inr (0, 0, es, ()))"
    unfolding domaci_series_def
    by (rule paginate_Break) (simp add: series_turn_def page_turn_def catalog_net_def n)
qed

lemma main_catalog_net:
  "static_catalog c [] = Inr (es, mc, sc) \<Longrightarrow>
   main (catalog_net c) () =
     Some (and_then (remove_duplicates es) (\<lambda>unique_entries.
           and_then (statistics unique_entries) (\<lambda>stats.
             Inr ((m3u_file unique_entries, stats), ()))))"
  by (simp add: main_def catalog_net_def[of c baubau_url] catalog_net_pages)

lemma mixed_catalog_entries:
  "static_catalog mixed_catalog []
     = Inr ([(''#EXTINF:-1 tvg-name=\"Film\" group-title=\"Movies\", Film'', JStr ''http://a'')], 1, 0)"
  by (simp add: static_catalog_def mixed_catalog_def domestic_categories_def create_extinf_def
        extinf_parts_def tmdb_id_def own_id_def display_title_def)

lemma sample_catalog_entries:
  "static_catalog sample_catalog []
     = Inr ([(''#EXTINF:-1 tvg-id=\"123\" tvg-name=\"Film\" group-title=\"Movies\", Film'', JStr ''http://a''),
             (''#EXTINF:-1 tvg-id=\"123\" tvg-name=\"Film\" group-title=\"Movies\", Film'', JStr ''http://b''),
             (''#EXTINF:-1 tvg-name=\"Serija\" group-title=\"Series\", Serija'', JStr ''http://a'')], 1, 1)"
  by (simp add: static_catalog_def sample_catalog_def domestic_categories_def create_extinf_def
        extinf_parts_def tmdb_id_def own_id_def display_title_def isdigit_def)

lemma twin_catalog_entries:
  "static_catalog twin_catalog []
     = Inr ([(''#EXTINF:-1 tvg-name=\"Film\" group-title=\"Movies\", Film'', JStr ''http://a''),
             (''#EXTINF:-1 tvg-name=\"Film\" group-title=\"Movies\", Film'', JStr ''http://a'')], 1, 0)"
  by (simp add: static_catalog_def twin_catalog_def domestic_categories_def create_extinf_def
        extinf_parts_def tmdb_id_def own_id_def display_title_def)

lemma newline_catalog_entries:
  "static_catalog newline_catalog []
     = Inr ([(''#EXTINF:-1 tvg-name=\"A'' @ [CHR 0x0A] @ ''B\" group-title=\"Movies\", A''
                @ [CHR 0x0A] @ ''B'', JStr ''http://a'')], 1, 0)"
  by (simp add: static_catalog_def newline_catalog_def domestic_categories_def create_extinf_def
        extinf_parts_def tmdb_id_def own_id_def display_title_def)

lemma number_catalog_entries:
  "static_catalog number_catalog []
     = Inr ([(''#EXTINF:-1 tvg-name=\"Film\" group-title=\"Movies\", Film'', JInt 1),
             (''#EXTINF:-1 tvg-name=\"Film\" group-title=\"Movies\", Film'', JStr ''1'')], 1, 0)"
  by (simp add: static_catalog_def number_catalog_def domestic_categories_def create_extinf_def
        extinf_parts_def tmdb_id_def own_id_def display_title_def)

text \<open>
  Claim C8, as amended. The file is the marker line \<open>#EXTM3U\<close> followed, for each
  retained entry in order, by the header and a newline and the url and a newline. When
  no header and no url has a newline in it, the lines of the file are the marker, then
  header and url of each entry in turn: line \<open>2 * i + 1\<close> is the header of entry \<open>i\<close>
  and line \<open>2 * i + 2\<close> its url. The entries that the deduplicator returns have distinct
  urls, distinct as text too when the urls are strings, so each url is written once. A
  header that \<^verbatim>\<open>create_extinf\<close> returns begins with the prefix token. A run of
  \<^verbatim>\<open>main\<close> that ends writes the file of entries with distinct urls whose headers all
  begin with the prefix token, and reports their number as the total; when these
  entries have string urls and no newline in header or url, the lines of the file
  written are the marker and then, for each entry, its header line, which begins with
  the prefix token, and its url line, and the url lines are pairwise different.
\<close>

theorem m3u_file_layout:
  "m3u_file es = ''#EXTM3U'' @ [CHR 0x0A]
       @ concat (map (\<lambda>p. fst p @ [CHR 0x0A] @ py_str (snd p) @ [CHR 0x0A]) es)
   \<and> ((\<forall>p\<in>set es. CHR 0x0A \<notin> set (fst p) \<and> CHR 0x0A \<notin> set (py_str (snd p))) \<longrightarrow>
          text_lines (m3u_file es) = ''#EXTM3U'' # concat (map (\<lambda>p. [fst p, py_str (snd p)]) es)
        \<and> (\<forall>i<length es. text_lines (m3u_file es) ! (2 * i + 1) = fst (es ! i)
                        \<and> text_lines (m3u_file es) ! (2 * i + 2) = py_str (snd (es ! i))))
   \<and> (remove_duplicates all_entries = Inr es \<longrightarrow> distinct (map snd es) \<and> subseq es all_entries)
   \<and> (remove_duplicates all_entries = Inr es \<and> (\<forall>p\<in>set all_entries. \<exists>u. snd p = JStr u)
        \<longrightarrow> distinct (map (\<lambda>p. py_str (snd p)) es))
   \<and> (create_extinf item ct = Inr h \<longrightarrow> prefix ''#EXTINF:-1 '' h)
   \<and> (main fetch_json w0 = Some (Inr ((file, stats), w')) \<longrightarrow>
        (\<exists>unique. file = m3u_file unique \<and> distinct (map snd unique) \<and> ext_headers unique
            \<and> total stats = int (length unique)
            \<and> ((\<forall>p\<in>set unique. CHR 0x0A \<notin> set (fst p) \<and> CHR 0x0A \<notin> set (py_str (snd p))
                     \<and> (\<exists>u. snd p = JStr u)) \<longrightarrow>
                  text_lines file
                    = ''#EXTM3U'' # concat (map (\<lambda>p. [fst p, py_str (snd p)]) unique)
                \<and> distinct (map (\<lambda>p. py_str (snd p)) unique)
                \<and> (\<forall>i<length unique.
                       prefix ''#EXTINF:-1 '' (text_lines file ! (2 * i + 1))
                     \<and> text_lines file ! (2 * i + 1) = fst (unique ! i)
                     \<and> text_lines file ! (2 * i + 2) = py_str (snd (unique ! i))))))"
proof (intro conjI impI allI)
  show "m3u_file es = ''#EXTM3U'' @ [CHR 0x0A]
       @ concat (map (\<lambda>p. fst p @ [CHR 0x0A] @ py_str (snd p) @ [CHR 0x0A]) es)"
    by (rule m3u_file_concat)
next
  assume "\<forall>p\<in>set es. CHR 0x0A \<notin> set (fst p) \<and> CHR 0x0A \<notin> set (py_str (snd p))"
  then show "text_lines (m3u_file es) = ''#EXTM3U'' # concat (map (\<lambda>p. [fst p, py_str (snd p)]) es)"
    by (rule text_lines_m3u_file)
next
  fix i
  assume a: "\<forall>p\<in>set es. CHR 0x0A \<notin> set (fst p) \<and> CHR 0x0A \<notin> set (py_str (snd p))"
    and i: "i < length es"
  from pairs_nth[OF i, of fst "\<lambda>p. py_str (snd p)"] text_lines_m3u_file[OF a]
  show "text_lines (m3u_file es) ! (2 * i + 1) = fst (es ! i)"
    and "text_lines (m3u_file es) ! (2 * i + 2) = py_str (snd (es ! i))"
    by simp_all
next
  assume "remove_duplicates all_entries = Inr es"
  from remove_duplicates_distinct[OF this]
  show "distinct (map snd es)" and "subseq es all_entries" by simp_all
next
  assume a: "remove_duplicates all_entries = Inr es \<and> (\<forall>p\<in>set all_entries. \<exists>u. snd p = JStr u)"
  with remove_duplicates_distinct[of all_entries es]
  have d: "distinct (map snd es)" and s: "subseq es all_entries" by simp_all
  have "\<forall>p\<in>set es. \<exists>u. snd p = JStr u"
  proof
    fix p assume "p \<in> set es"
    with s have "p \<in> set all_entries" by (auto dest: list_emb_set)
    with a show "\<exists>u. snd p = JStr u" by blast
  qed
  with d show "distinct (map (\<lambda>p. py_str (snd p)) es)" by (rule distinct_url_text)
next
  assume "create_extinf item ct = Inr h"
  then show "prefix ''#EXTINF:-1 '' h" by (rule create_extinf_prefix)
next
  assume "main fetch_json w0 = Some (Inr ((file, stats), w'))"
  from main_output[OF this] obtain all_entries unique where
    u: "remove_duplicates all_entries = Inr unique" "ext_headers all_entries"
       "file = m3u_file unique" "total stats = int (length unique)"
    by blast
  from remove_duplicates_distinct[OF u(1)] have d: "distinct (map snd unique)"
    and s: "subseq unique all_entries" by simp_all
  from ext_headers_subseq[OF s u(2)] have e: "ext_headers unique" .
  have l: "text_lines file = ''#EXTM3U'' # concat (map (\<lambda>p. [fst p, py_str (snd p)]) unique)
         \<and> distinct (map (\<lambda>p. py_str (snd p)) unique)
         \<and> (\<forall>i<length unique.
                prefix ''#EXTINF:-1 '' (text_lines file ! (2 * i + 1))
              \<and> text_lines file ! (2 * i + 1) = fst (unique ! i)
              \<and> text_lines file ! (2 * i + 2) = py_str (snd (unique ! i)))"
    if h: "\<forall>p\<in>set unique. CHR 0x0A \<notin> set (fst p) \<and> CHR 0x0A \<notin> set (py_str (snd p))
                     \<and> (\<exists>u. snd p = JStr u)"
  proof (intro conjI allI impI)
    from h have n: "\<forall>p\<in>set unique. CHR 0x0A \<notin> set (fst p) \<and> CHR 0x0A \<notin> set (py_str (snd p))"
      by blast
    from h have str: "\<forall>p\<in>set unique. \<exists>u. snd p = JStr u" by blast
    show t: "text_lines file = ''#EXTM3U'' # concat (map (\<lambda>p. [fst p, py_str (snd p)]) unique)"
      unfolding u(3) using n by (rule text_lines_m3u_file)
    show "distinct (map (\<lambda>p. py_str (snd p)) unique)" using d str by (rule distinct_url_text)
    fix i assume i: "i < length unique"
    from pairs_nth[OF i, of fst "\<lambda>p. py_str (snd p)"] t
    show f: "text_lines file ! (2 * i + 1) = fst (unique ! i)"
      and "text_lines file ! (2 * i + 2) = py_str (snd (unique ! i))"
      by simp_all
    from e i have "prefix ''#EXTINF:-1 '' (fst (unique ! i))"
      by (simp add: ext_headers_def list_all_length)
    then show "prefix ''#EXTINF:-1 '' (text_lines file ! (2 * i + 1))" unfolding f .
  qed
  then have "(\<forall>p\<in>set unique. CHR 0x0A \<notin> set (fst p) \<and> CHR 0x0A \<notin> set (py_str (snd p))
                     \<and> (\<exists>u. snd p = JStr u)) \<longrightarrow>
                  text_lines file
                    = ''#EXTM3U'' # concat (map (\<lambda>p. [fst p, py_str (snd p)]) unique)
                \<and> distinct (map (\<lambda>p. py_str (snd p)) unique)
                \<and> (\<forall>i<length unique.
                       prefix ''#EXTINF:-1 '' (text_lines file ! (2 * i + 1))
                     \<and> text_lines file ! (2 * i + 1) = fst (unique ! i)
                     \<and> text_lines file ! (2 * i + 2) = py_str (snd (unique ! i)))"
    by (rule impI)
  with u(3,4) d e show "\<exists>unique. file = m3u_file unique \<and> distinct (map snd unique) \<and> ext_headers unique
            \<and> total stats = int (length unique)
            \<and> ((\<forall>p\<in>set unique. CHR 0x0A \<notin> set (fst p) \<and> CHR 0x0A \<notin> set (py_str (snd p))
                     \<and> (\<exists>u. snd p = JStr u)) \<longrightarrow>
                  text_lines file
                    = ''#EXTM3U'' # concat (map (\<lambda>p. [fst p, py_str (snd p)]) unique)
                \<and> distinct (map (\<lambda>p. py_str (snd p)) unique)
                \<and> (\<forall>i<length unique.
                       prefix ''#EXTINF:-1 '' (text_lines file ! (2 * i + 1))
                     \<and> text_lines file ! (2 * i + 1) = fst (unique ! i)
                     \<and> text_lines file ! (2 * i + 2) = py_str (snd (unique ! i))))"
    by (intro exI[of _ unique] conjI)
qed

text \<open>The run on the small static catalog: three entries are collected, the third has
  the url of the first and is dropped, and the file has five lines.\<close>

theorem m3u_file_layout_witness:
  "main sample_net ()
     = Some (Inr ((m3u_file
                     [(''#EXTINF:-1 tvg-id=\"123\" tvg-name=\"Film\" group-title=\"Movies\", Film'', JStr ''http://a''),
                      (''#EXTINF:-1 tvg-id=\"123\" tvg-name=\"Film\" group-title=\"Movies\", Film'', JStr ''http://b'')],
                   \<lparr>total = 2, movies = 2, series = 0, with_tmdb = 2, percent = 100\<rparr>), ()))
   \<and> text_lines (m3u_file
         [(''#EXTINF:-1 tvg-id=\"123\" tvg-name=\"Film\" group-title=\"Movies\", Film'', JStr ''http://a''),
          (''#EXTINF:-1 tvg-id=\"123\" tvg-name=\"Film\" group-title=\"Movies\", Film'', JStr ''http://b'')])
     = [''#EXTM3U'',
        ''#EXTINF:-1 tvg-id=\"123\" tvg-name=\"Film\" group-title=\"Movies\", Film'', ''http://a'',
        ''#EXTINF:-1 tvg-id=\"123\" tvg-name=\"Film\" group-title=\"Movies\", Film'', ''http://b'']
   \<and> (\<exists>unique.
         m3u_file
           [(''#EXTINF:-1 tvg-id=\"123\" tvg-name=\"Film\" group-title=\"Movies\", Film'', JStr ''http://a''),
            (''#EXTINF:-1 tvg-id=\"123\" tvg-name=\"Film\" group-title=\"Movies\", Film'', JStr ''http://b'')]
           = m3u_file unique
       \<and> distinct (map snd unique) \<and> ext_headers unique \<and> length unique = 2)"
proof (intro conjI)
  let ?h = "''#EXTINF:-1 tvg-id=\"123\" tvg-name=\"Film\" group-title=\"Movies\", Film''"
  let ?s = "''#EXTINF:-1 tvg-name=\"Serija\" group-title=\"Series\", Serija''"
  let ?all = "[(?h, JStr ''http://a''), (?h, JStr ''http://b''), (?s, JStr ''http://a'')]"
  let ?unique = "[(?h, JStr ''http://a''), (?h, JStr ''http://b'')]"
  let ?stats = "\<lparr>total = 2, movies = 2, series = 0, with_tmdb = 2, percent = 100\<rparr>"
  have f: "sample_net baubau_url () = (sample_catalog, ())" by (simp add: sample_net_def)
  have n: "catalog_url kind cat 0 \<noteq> baubau_url" for kind cat
    by (simp add: catalog_url_def baubau_url_def)
  have m: "domaci_movies sample_net (?all, ()) = Some (Inr (0, 0, ?all, ()))"
    unfolding domaci_movies_def
    by (rule paginate_Break) (simp add: movies_turn_def page_turn_def sample_net_def n)
  have s: "domaci_series sample_net (?all, ()) = Some (Inr (0, 0, ?all, ()))"
    unfolding domaci_series_def
    by (rule paginate_Break) (simp add: series_turn_def page_turn_def sample_net_def n)
  have d: "remove_duplicates ?all = Inr ?unique" by (simp add: remove_duplicates_def)
  have st: "statistics ?unique = Inr ?stats"
    by (simp add: statistics_def tmdb_percent_def floordiv_def count_with_def)
  show run: "main sample_net () = Some (Inr ((m3u_file ?unique, ?stats), ()))"
    by (simp add: main_def f sample_catalog_entries m s d st)
  have "\<forall>p\<in>set ?unique. CHR 0x0A \<notin> set (fst p) \<and> CHR 0x0A \<notin> set (py_str (snd p))"
    by simp
  from m3u_file_layout[THEN conjunct2, THEN conjunct1, THEN mp, OF this, THEN conjunct1]
  show "text_lines (m3u_file ?unique) = [''#EXTM3U'', ?h, ''http://a'', ?h, ''http://b'']"
    by simp
  from m3u_file_layout[THEN conjunct2, THEN conjunct2, THEN conjunct2, THEN conjunct2,
         THEN conjunct2, THEN mp, OF run]
  obtain unique where
    u: "m3u_file ?unique = m3u_file unique" "distinct (map snd unique)" "ext_headers unique"
       "total ?stats = int (length unique)"
    by (elim exE conjE) (rule that; assumption)
  from u(4) have "length unique = 2" by simp
  with u(1-3) show "\<exists>unique. m3u_file ?unique = m3u_file unique
       \<and> distinct (map snd unique) \<and> ext_headers unique \<and> length unique = 2"
    by (intro exI[of _ unique] conjI)
qed

text \<open>The claim as first stated supposes what the code does not check. A name with a
  newline in it breaks the header into two lines, so that the url line follows a line
  that does not begin with the prefix token; and the urls 1 and \<open>1\<close> are different
  elements of \<^verbatim>\<open>seen_urls\<close> and the same line of the file, which then has this url
  twice.\<close>

theorem m3u_file_layout_counterexample:
  "main (catalog_net newline_catalog) ()
     = Some (Inr ((m3u_file
                     [(''#EXTINF:-1 tvg-name=\"A'' @ [CHR 0x0A] @ ''B\" group-title=\"Movies\", A''
                         @ [CHR 0x0A] @ ''B'', JStr ''http://a'')],
                   \<lparr>total = 1, movies = 1, series = 0, with_tmdb = 0, percent = 0\<rparr>), ()))
   \<and> text_lines (m3u_file
         [(''#EXTINF:-1 tvg-name=\"A'' @ [CHR 0x0A] @ ''B\" group-title=\"Movies\", A''
             @ [CHR 0x0A] @ ''B'', JStr ''http://a'')])
       = [''#EXTM3U'', ''#EXTINF:-1 tvg-name=\"A'', ''B\" group-title=\"Movies\", A'', ''B'',
          ''http://a'']
   \<and> \<not> prefix ''#EXTINF:-1 '' ''B''
   \<and> main (catalog_net number_catalog) ()
     = Some (Inr ((m3u_file
                     [(''#EXTINF:-1 tvg-name=\"Film\" group-title=\"Movies\", Film'', JInt 1),
                      (''#EXTINF:-1 tvg-name=\"Film\" group-title=\"Movies\", Film'', JStr ''1'')],
                   \<lparr>total = 2, movies = 2, series = 0, with_tmdb = 0, percent = 0\<rparr>), ()))
   \<and> text_lines (m3u_file
         [(''#EXTINF:-1 tvg-name=\"Film\" group-title=\"Movies\", Film'', JInt 1),
          (''#EXTINF:-1 tvg-name=\"Film\" group-title=\"Movies\", Film'', JStr ''1'')])
       = [''#EXTM3U'', ''#EXTINF:-1 tvg-name=\"Film\" group-title=\"Movies\", Film'', ''1'',
          ''#EXTINF:-1 tvg-name=\"Film\" group-title=\"Movies\", Film'', ''1'']"
proof (intro conjI)
  let ?hn = "''#EXTINF:-1 tvg-name=\"A'' @ [CHR 0x0A] @ ''B\" group-title=\"Movies\", A''
                         @ [CHR 0x0A] @ ''B''"
  let ?h = "''#EXTINF:-1 tvg-name=\"Film\" group-title=\"Movies\", Film''"
  have d1: "remove_duplicates [(?hn, JStr ''http://a'')] = Inr [(?hn, JStr ''http://a'')]"
    by (simp add: remove_duplicates_def)
  have s1: "statistics [(?hn, JStr ''http://a'')]
              = Inr \<lparr>total = 1, movies = 1, series = 0, with_tmdb = 0, percent = 0\<rparr>"
    by (simp add: statistics_def tmdb_percent_def floordiv_def count_with_def)
  show "main (catalog_net newline_catalog) ()
     = Some (Inr ((m3u_file [(?hn, JStr ''http://a'')],
                   \<lparr>total = 1, movies = 1, series = 0, with_tmdb = 0, percent = 0\<rparr>), ()))"
    by (simp only: main_catalog_net[OF newline_catalog_entries] d1 s1 and_then.simps)
  show "text_lines (m3u_file [(?hn, JStr ''http://a'')])
       = [''#EXTM3U'', ''#EXTINF:-1 tvg-name=\"A'', ''B\" group-title=\"Movies\", A'', ''B'',
          ''http://a'']"
    by (simp add: text_lines_def m3u_file_def)
  show "\<not> prefix ''#EXTINF:-1 '' ''B''" by simp
  have d2: "remove_duplicates [(?h, JInt 1), (?h, JStr ''1'')] = Inr [(?h, JInt 1), (?h, JStr ''1'')]"
    by (simp add: remove_duplicates_def)
  have s2: "statistics [(?h, JInt 1), (?h, JStr ''1'')]
              = Inr \<lparr>total = 2, movies = 2, series = 0, with_tmdb = 0, percent = 0\<rparr>"
    by (simp add: statistics_def tmdb_percent_def floordiv_def count_with_def)
  show "main (catalog_net number_catalog) ()
     = Some (Inr ((m3u_file [(?h, JInt 1), (?h, JStr ''1'')],
                   \<lparr>total = 2, movies = 2, series = 0, with_tmdb = 0, percent = 0\<rparr>), ()))"
    by (simp only: main_catalog_net[OF number_catalog_entries] d2 s2 and_then.simps)
  show "text_lines (m3u_file [(?h, JInt 1), (?h, JStr ''1'')])
       = [''#EXTM3U'', ?h, ''1'', ?h, ''1'']"
    by (simp add: text_lines_def m3u_file_def str_of_int_def str_of_nat.simps)
qed

section \<open>The static catalog in the run\<close>

text \<open>
  Claim C7. A movie item of the static catalog contributes entries if and only if its
  category is one of the labels of \<open>domestic_categories\<close>, compared as strings, and
  its \<open>streams\<close> are not empty. Of the step for one movie: whenever it returns, the
  entries it leaves are the ones it found followed by new ones, and there are new ones
  exactly in that case; a movie whose category is not in the list leaves the entries as
  they were, whatever streams it has; so does a movie without a category, and one of the
  category \<open>Drugo\<close>; a movie of the list with a list of streams that have urls, and
  for which a header is built, contributes an entry for each stream. Of the adapter:
  when it returns, its entries are, for each movie of \<open>movies\<close>, the entries left by
  the movies before it, then the ones this movie contributes, then the rest, and the
  movie contributes some exactly in the case above; and the adapter returns exactly when
  the step of every movie and of every series item returns, with the contributions of
  the movies in order followed by those of the series. Of the run: when \<^verbatim>\<open>main\<close> ends,
  the entries it has deduplicated and written are those of the adapter followed by those
  of the two other sources.
\<close>

theorem movie_contributes_iff:
  "(movie_step movie (es, n) = Inr (es', n') \<longrightarrow>
      (\<exists>new. es' = es @ new
         \<and> (new \<noteq> [] \<longleftrightarrow>
              (\<exists>c s. dict_get movie ''category'' = Inr (JStr c) \<and> c \<in> set domestic_categories
                   \<and> dict_get movie ''streams'' = Inr s \<and> truthy s))))
   \<and> (dict_get movie ''category'' = Inr c \<and> c \<notin> JStr ` set domestic_categories
        \<longrightarrow> movie_step movie (es, n) = Inr (es, n))
   \<and> (map_of kvs ''category'' = None \<longrightarrow> movie_step (JObj kvs) (es, n) = Inr (es, n))
   \<and> (map_of kvs ''category'' = Some (JStr ''Drugo'') \<longrightarrow> movie_step (JObj kvs) (es, n) = Inr (es, n))
   \<and> (dict_get movie ''category'' = Inr (JStr c') \<and> c' \<in> set domestic_categories
        \<and> dict_get movie ''streams'' = Inr (JArr ss) \<and> ss \<noteq> []
        \<and> create_extinf movie ''movie'' = Inr h
        \<and> map (\<lambda>s. subscript s ''url'') ss = map Inr urls
        \<longrightarrow> movie_step movie (es, n) = Inr (es @ map (Pair h) urls, n + 1)
          \<and> map (Pair h) urls \<noteq> [])
   \<and> (static_catalog data es = Inr (es', mc, sc)
        \<and> dict_get_default data ''movies'' (JArr []) = Inr (JArr (before @ movie # after))
        \<longrightarrow> (\<exists>pre k new k' post.
               for_each movie_step before (es, 0) = Inr (pre, k)
             \<and> movie_step movie (pre, k) = Inr (pre @ new, k + k')
             \<and> es' = pre @ new @ post
             \<and> (new \<noteq> [] \<longleftrightarrow>
                  (\<exists>c s. dict_get movie ''category'' = Inr (JStr c) \<and> c \<in> set domestic_categories
                       \<and> dict_get movie ''streams'' = Inr s \<and> truthy s))))
   \<and> (truthy data \<and> dict_get_default data ''movies'' (JArr []) = Inr (JArr ms)
        \<and> dict_get_default data ''series'' (JArr []) = Inr (JArr items)
        \<longrightarrow> ((\<exists>mc sc. static_catalog data es = Inr (es', mc, sc)) \<longleftrightarrow>
             (\<exists>cm cs. map (\<lambda>m. movie_step m ([], 0)) ms = map Inr cm
                    \<and> map (\<lambda>s. series_step s ([], 0)) items = map Inr cs
                    \<and> es' = es @ concat (map fst cm) @ concat (map fst cs))))
   \<and> (main fetch_json w0 = Some (Inr ((file, stats), w')) \<and> fetch_json baubau_url w0 = (data, w1)
        \<longrightarrow> (\<exists>es1 mc sc later unique.
               static_catalog data [] = Inr (es1, mc, sc)
             \<and> remove_duplicates (es1 @ later) = Inr unique
             \<and> file = m3u_file unique))"
proof (intro conjI impI)
  assume "movie_step movie (es, n) = Inr (es', n')"
  from movie_step_Inr[OF this]
  show "\<exists>new. es' = es @ new
         \<and> (new \<noteq> [] \<longleftrightarrow>
              (\<exists>c s. dict_get movie ''category'' = Inr (JStr c) \<and> c \<in> set domestic_categories
                   \<and> dict_get movie ''streams'' = Inr s \<and> truthy s))"
    by blast
next
  assume "dict_get movie ''category'' = Inr c \<and> c \<notin> JStr ` set domestic_categories"
  then show "movie_step movie (es, n) = Inr (es, n)" by (intro movie_step_dropped) auto
next
  assume "map_of kvs ''category'' = None"
  then show "movie_step (JObj kvs) (es, n) = Inr (es, n)" by auto
next
  assume "map_of kvs ''category'' = Some (JStr ''Drugo'')"
  then show "movie_step (JObj kvs) (es, n) = Inr (es, n)" by (auto simp: domestic_categories_def)
next
  assume a: "dict_get movie ''category'' = Inr (JStr c') \<and> c' \<in> set domestic_categories
        \<and> dict_get movie ''streams'' = Inr (JArr ss) \<and> ss \<noteq> []
        \<and> create_extinf movie ''movie'' = Inr h
        \<and> map (\<lambda>s. subscript s ''url'') ss = map Inr urls"
  then have "stream_loop movie ''movie'' ss es = Inr (es @ map (Pair h) urls)"
    by (intro stream_loop_urls) auto
  moreover have "movie_step movie (es, n) =
           and_then (py_iter (JArr ss)) (\<lambda>ss. and_then (stream_loop movie ''movie'' ss es) (\<lambda>es'. Inr (es', n + 1)))"
    using a by (intro movie_step_kept[where c = "JStr c'"]) auto
  ultimately show "movie_step movie (es, n) = Inr (es @ map (Pair h) urls, n + 1)" by simp
next
  assume a: "dict_get movie ''category'' = Inr (JStr c') \<and> c' \<in> set domestic_categories
        \<and> dict_get movie ''streams'' = Inr (JArr ss) \<and> ss \<noteq> []
        \<and> create_extinf movie ''movie'' = Inr h
        \<and> map (\<lambda>s. subscript s ''url'') ss = map Inr urls"
  then have "length urls = length ss" by (metis length_map)
  with a show "map (Pair h) urls \<noteq> []" by auto
next
  assume a: "static_catalog data es = Inr (es', mc, sc)
        \<and> dict_get_default data ''movies'' (JArr []) = Inr (JArr (before @ movie # after))"
  from static_catalog_movie_block[of data es es' mc sc before movie after] a
  obtain pre k new k' post where
    b: "for_each movie_step before (es, 0) = Inr (pre, k)"
       "movie_step movie (pre, k) = Inr (pre @ new, k + k')"
       "es' = pre @ new @ post"
    by blast
  from movie_step_contributes[OF b(2)] b
  show "\<exists>pre k new k' post.
               for_each movie_step before (es, 0) = Inr (pre, k)
             \<and> movie_step movie (pre, k) = Inr (pre @ new, k + k')
             \<and> es' = pre @ new @ post
             \<and> (new \<noteq> [] \<longleftrightarrow>
                  (\<exists>c s. dict_get movie ''category'' = Inr (JStr c) \<and> c \<in> set domestic_categories
                       \<and> dict_get movie ''streams'' = Inr s \<and> truthy s))"
    by blast
next
  assume a: "truthy data \<and> dict_get_default data ''movies'' (JArr []) = Inr (JArr ms)
        \<and> dict_get_default data ''series'' (JArr []) = Inr (JArr items)"
  then have t: "truthy data" and m: "dict_get_default data ''movies'' (JArr []) = Inr (JArr ms)"
    and s: "dict_get_default data ''series'' (JArr []) = Inr (JArr items)" by simp_all
  show "(\<exists>mc sc. static_catalog data es = Inr (es', mc, sc)) \<longleftrightarrow>
             (\<exists>cm cs. map (\<lambda>m. movie_step m ([], 0)) ms = map Inr cm
                    \<and> map (\<lambda>s. series_step s ([], 0)) items = map Inr cs
                    \<and> es' = es @ concat (map fst cm) @ concat (map fst cs))"
    unfolding static_catalog_iff[OF t m s] by blast
next
  assume "main fetch_json w0 = Some (Inr ((file, stats), w')) \<and> fetch_json baubau_url w0 = (data, w1)"
  then have m: "main fetch_json w0 = Some (Inr ((file, stats), w'))"
    and f: "fetch_json baubau_url w0 = (data, w1)" by simp_all
  from main_entries[OF m f]
  show "\<exists>es1 mc sc later unique.
               static_catalog data [] = Inr (es1, mc, sc)
             \<and> remove_duplicates (es1 @ later) = Inr unique
             \<and> file = m3u_file unique"
    by blast
qed

text \<open>A movie of the category \<open>Drugo\<close>, one without a category, one whose category
  differs from a label of the list in case only, and one of the list; and the catalog
  with a movie of the category \<open>Drugo\<close> before a movie of the list, of which the
  second alone is in what the adapter returns and in the file.\<close>

theorem movie_contributes_iff_witness:
  "movie_step (JObj [(''name'', JStr ''Film''), (''category'', JStr ''Drugo''),
                     (''streams'', JArr [JObj [(''url'', JStr ''http://a'')]])]) ([], 0)
     = Inr ([], 0)
   \<and> movie_step (JObj [(''name'', JStr ''Film''),
                     (''streams'', JArr [JObj [(''url'', JStr ''http://a'')]])]) ([], 0)
     = Inr ([], 0)
   \<and> movie_step (JObj [(''name'', JStr ''Film''), (''category'', JStr ''ex yu filmovi''),
                     (''streams'', JArr [JObj [(''url'', JStr ''http://a'')]])]) ([], 0)
     = Inr ([], 0)
   \<and> movie_step (JObj [(''name'', JStr ''Film''), (''category'', JStr ''EX YU FILMOVI''),
                     (''streams'', JArr [JObj [(''url'', JStr ''http://a'')]])]) ([], 0)
     = Inr ([(''#EXTINF:-1 tvg-name=\"Film\" group-title=\"Movies\", Film'', JStr ''http://a'')], 1)
   \<and> (\<exists>new k.
         movie_step (JObj [(''name'', JStr ''Film''), (''category'', JStr ''EX YU FILMOVI''),
                           (''streams'', JArr [JObj [(''url'', JStr ''http://a'')]])]) ([], 0)
           = Inr ([] @ new, 0 + k)
       \<and> static_catalog mixed_catalog []
           = Inr ([] @ new @ [], 1, 0)
       \<and> new \<noteq> [])
   \<and> (\<exists>mc sc. static_catalog mixed_catalog []
         = Inr ([(''#EXTINF:-1 tvg-name=\"Film\" group-title=\"Movies\", Film'', JStr ''http://a'')], mc, sc))
   \<and> main (catalog_net mixed_catalog) ()
       = Some (Inr ((m3u_file
                       [(''#EXTINF:-1 tvg-name=\"Film\" group-title=\"Movies\", Film'', JStr ''http://a'')],
                     \<lparr>total = 1, movies = 1, series = 0, with_tmdb = 0, percent = 0\<rparr>), ()))"
proof (intro conjI)
  have "map_of [(''name'', JStr ''Film''), (''category'', JStr ''Drugo''),
                (''streams'', JArr [JObj [(''url'', JStr ''http://a'')]])] ''category''
          = Some (JStr ''Drugo'')"
    by simp
  with movie_contributes_iff[THEN conjunct2, THEN conjunct2, THEN conjunct2, THEN conjunct1, rule_format]
  show "movie_step (JObj [(''name'', JStr ''Film''), (''category'', JStr ''Drugo''),
                     (''streams'', JArr [JObj [(''url'', JStr ''http://a'')]])]) ([], 0)
     = Inr ([], 0)"
    by blast
next
  have "map_of [(''name'', JStr ''Film''),
                (''streams'', JArr [JObj [(''url'', JStr ''http://a'')]])] ''category'' = None"
    by simp
  with movie_contributes_iff[THEN conjunct2, THEN conjunct2, THEN conjunct1, rule_format]
  show "movie_step (JObj [(''name'', JStr ''Film''),
                     (''streams'', JArr [JObj [(''url'', JStr ''http://a'')]])]) ([], 0)
     = Inr ([], 0)"
    by blast
next
  have "dict_get (JObj [(''name'', JStr ''Film''), (''category'', JStr ''ex yu filmovi''),
                     (''streams'', JArr [JObj [(''url'', JStr ''http://a'')]])]) ''category''
          = Inr (JStr ''ex yu filmovi'')
        \<and> JStr ''ex yu filmovi'' \<notin> JStr ` set domestic_categories"
    by (auto simp: domestic_categories_def)
  with movie_contributes_iff[THEN conjunct2, THEN conjunct1, rule_format]
  show "movie_step (JObj [(''name'', JStr ''Film''), (''category'', JStr ''ex yu filmovi''),
                     (''streams'', JArr [JObj [(''url'', JStr ''http://a'')]])]) ([], 0)
     = Inr ([], 0)"
    by blast
next
  let ?m = "JObj [(''name'', JStr ''Film''), (''category'', JStr ''EX YU FILMOVI''),
                     (''streams'', JArr [JObj [(''url'', JStr ''http://a'')]])]"
  have "dict_get ?m ''category'' = Inr (JStr ''EX YU FILMOVI'')
        \<and> ''EX YU FILMOVI'' \<in> set domestic_categories
        \<and> dict_get ?m ''streams'' = Inr (JArr [JObj [(''url'', JStr ''http://a'')]])
        \<and> [JObj [(''url'', JStr ''http://a'')]] \<noteq> []
        \<and> create_extinf ?m ''movie'' = Inr ''#EXTINF:-1 tvg-name=\"Film\" group-title=\"Movies\", Film''
        \<and> map (\<lambda>s. subscript s ''url'') [JObj [(''url'', JStr ''http://a'')]] = map Inr [JStr ''http://a'']"
    by (simp add: domestic_categories_def create_extinf_def extinf_parts_def tmdb_id_def
          own_id_def display_title_def)
  from movie_contributes_iff[THEN conjunct2, THEN conjunct2, THEN conjunct2, THEN conjunct2,
         THEN conjunct1, rule_format, OF this, of "[]" 0]
  show "movie_step ?m ([], 0)
     = Inr ([(''#EXTINF:-1 tvg-name=\"Film\" group-title=\"Movies\", Film'', JStr ''http://a'')], 1)"
    by simp
next
  let ?d = "JObj [(''name'', JStr ''Strani''), (''category'', JStr ''Drugo''),
                        (''streams'', JArr [JObj [(''url'', JStr ''http://d'')]])]"
  let ?m = "JObj [(''name'', JStr ''Film''), (''category'', JStr ''EX YU FILMOVI''),
                     (''streams'', JArr [JObj [(''url'', JStr ''http://a'')]])]"
  let ?h = "''#EXTINF:-1 tvg-name=\"Film\" group-title=\"Movies\", Film''"
  have "static_catalog mixed_catalog [] = Inr ([(?h, JStr ''http://a'')], 1, 0)
        \<and> dict_get_default mixed_catalog ''movies'' (JArr []) = Inr (JArr ([?d] @ ?m # []))"
    by (simp add: mixed_catalog_entries) (simp add: mixed_catalog_def)
  from movie_contributes_iff[THEN conjunct2, THEN conjunct2, THEN conjunct2, THEN conjunct2,
         THEN conjunct2, THEN conjunct1, rule_format, OF this]
  obtain pre k new k' post where
    b: "for_each movie_step [?d] ([], 0) = Inr (pre, k)"
       "movie_step ?m (pre, k) = Inr (pre @ new, k + k')"
       "[(?h, JStr ''http://a'')] = pre @ new @ post"
       "new \<noteq> [] \<longleftrightarrow>
          (\<exists>c s. dict_get ?m ''category'' = Inr (JStr c) \<and> c \<in> set domestic_categories
               \<and> dict_get ?m ''streams'' = Inr s \<and> truthy s)"
    by blast
  have "for_each movie_step [?d] ([], 0) = Inr ([], 0)"
    by (simp add: domestic_categories_def)
  with b(1) have p: "pre = []" "k = 0" by simp_all
  have "\<exists>c s. dict_get ?m ''category'' = Inr (JStr c) \<and> c \<in> set domestic_categories
               \<and> dict_get ?m ''streams'' = Inr s \<and> truthy s"
    by (simp add: domestic_categories_def)
  with b(4) have ne: "new \<noteq> []" by simp
  from b(3) p ne have "new = [(?h, JStr ''http://a'')]" "post = []"
    by (cases new; simp)+
  with b(2) p ne mixed_catalog_entries
  show "\<exists>new k. movie_step ?m ([], 0) = Inr ([] @ new, 0 + k)
       \<and> static_catalog mixed_catalog [] = Inr ([] @ new @ [], 1, 0)
       \<and> new \<noteq> []"
    by auto
next
  let ?h = "''#EXTINF:-1 tvg-name=\"Film\" group-title=\"Movies\", Film''"
  have t: "truthy mixed_catalog
        \<and> dict_get_default mixed_catalog ''movies'' (JArr [])
            = Inr (JArr [JObj [(''name'', JStr ''Strani''), (''category'', JStr ''Drugo''),
                        (''streams'', JArr [JObj [(''url'', JStr ''http://d'')]])],
                  JObj [(''name'', JStr ''Film''), (''category'', JStr ''EX YU FILMOVI''),
                        (''streams'', JArr [JObj [(''url'', JStr ''http://a'')]])]])
        \<and> dict_get_default mixed_catalog ''series'' (JArr []) = Inr (JArr [])"
    by (simp add: mixed_catalog_def)
  have "\<exists>cm cs. map (\<lambda>m. movie_step m ([], 0))
                [JObj [(''name'', JStr ''Strani''), (''category'', JStr ''Drugo''),
                        (''streams'', JArr [JObj [(''url'', JStr ''http://d'')]])],
                  JObj [(''name'', JStr ''Film''), (''category'', JStr ''EX YU FILMOVI''),
                        (''streams'', JArr [JObj [(''url'', JStr ''http://a'')]])]] = map Inr cm
             \<and> map (\<lambda>s. series_step s ([], 0)) [] = map Inr cs
             \<and> [(?h, JStr ''http://a'')] = [] @ concat (map fst cm) @ concat (map fst cs)"
    by (rule exI[of _ "[([], 0), ([(?h, JStr ''http://a'')], 1)]"], rule exI[of _ "[]"])
       (simp add: domestic_categories_def create_extinf_def extinf_parts_def tmdb_id_def
          own_id_def display_title_def)
  with movie_contributes_iff[THEN conjunct2, THEN conjunct2, THEN conjunct2, THEN conjunct2,
         THEN conjunct2, THEN conjunct2, THEN conjunct1, rule_format, OF t,
         where es = "[]" and es' = "[(?h, JStr ''http://a'')]"]
  show "\<exists>mc sc. static_catalog mixed_catalog [] = Inr ([(?h, JStr ''http://a'')], mc, sc)"
    by blast
next
  let ?h = "''#EXTINF:-1 tvg-name=\"Film\" group-title=\"Movies\", Film''"
  have d: "remove_duplicates [(?h, JStr ''http://a'')] = Inr [(?h, JStr ''http://a'')]"
    by (simp add: remove_duplicates_def)
  have st: "statistics [(?h, JStr ''http://a'')]
              = Inr \<lparr>total = 1, movies = 1, series = 0, with_tmdb = 0, percent = 0\<rparr>"
    by (simp add: statistics_def tmdb_percent_def floordiv_def count_with_def)
  show "main (catalog_net mixed_catalog) ()
       = Some (Inr ((m3u_file [(?h, JStr ''http://a'')],
                     \<lparr>total = 1, movies = 1, series = 0, with_tmdb = 0, percent = 0\<rparr>), ()))"
    by (simp add: main_catalog_net[OF mixed_catalog_entries] d st)
qed

text \<open>The header depends on four fields of the item, and a block of entries with
  new urls passes the deduplicator as it is.\<close>

lemma create_extinf_frame:
  assumes "dict_get item ''id'' = dict_get item' ''id''"
    and "dict_get item ''poster'' = dict_get item' ''poster''"
    and "dict_get_default item ''name'' (JStr ''Unknown'')
           = dict_get_default item' ''name'' (JStr ''Unknown'')"
    and "dict_get item ''year'' = dict_get item' ''year''"
    and "content_type = ''series'' \<longleftrightarrow> content_type' = ''series''"
  shows "create_extinf item content_type = create_extinf item' content_type'"
proof -
  have t: "tmdb_id item = tmdb_id item'"
    unfolding tmdb_id_def assms(1,2) by (rule refl)
  have p: "extinf_parts item content_type = extinf_parts item' content_type'"
    unfolding extinf_parts_def t assms(2,3,5) by (rule refl)
  show ?thesis
    unfolding create_extinf_def p assms(3,4) by (rule refl)
qed

lemma set_key_JStr: "set_key v = JStr s \<longleftrightarrow> v = JStr s"
  by (cases v) auto

lemma string_keys:
  assumes "\<forall>u\<in>set urls. \<exists>s. u = JStr s"
  shows "map (\<lambda>p. set_key (snd p)) (map (Pair h) urls) = urls"
proof -
  have "map (\<lambda>p. set_key (snd p)) (map (Pair h) urls) = map set_key urls" by (simp add: comp_def)
  also have "\<dots> = map (\<lambda>u. u) urls"
    by (rule map_cong) (use assms in auto)
  finally show ?thesis by simp
qed

lemma string_block:
  assumes run: "remove_duplicates (pre @ map (Pair h) urls @ post) = Inr unique"
    and d: "distinct urls"
    and s: "\<forall>u\<in>set urls. \<exists>s. u = JStr s"
    and f: "set urls \<inter> snd ` set pre = {}"
  shows "\<exists>upre upost. unique = upre @ map (Pair h) urls @ upost
          \<and> set urls \<inter> snd ` set (upre @ upost) = {}"
proof -
  let ?k = "\<lambda>p. set_key (snd p)"
  let ?b = "map (Pair h) urls"
  have kb: "map ?k ?b = urls" using string_keys[OF s] .
  then have kbs: "?k ` set ?b = set urls" by (metis set_map)
  have d': "distinct (map ?k ?b)" using d kb by simp
  have f': "?k ` set ?b \<inter> ?k ` set pre = {}"
  proof (rule ccontr)
    assume "?k ` set ?b \<inter> ?k ` set pre \<noteq> {}"
    then obtain x where x: "x \<in> set urls" "x \<in> ?k ` set pre" unfolding kbs by blast
    from x(1) s obtain t where t: "x = JStr t" by blast
    from x(2) obtain p where p: "p \<in> set pre" "set_key (snd p) = x" by auto
    from p(2) t have "snd p = x" by (simp add: set_key_JStr)
    with p(1) x(1) f show False by force
  qed
  from remove_duplicates_block[OF run d' f'] obtain upre upost where
    u: "unique = upre @ ?b @ upost" "?k ` set ?b \<inter> ?k ` set (upre @ upost) = {}"
    by blast
  have "set urls \<inter> snd ` set (upre @ upost) = {}"
  proof (rule ccontr)
    assume "set urls \<inter> snd ` set (upre @ upost) \<noteq> {}"
    then obtain x p where x: "x \<in> set urls" "p \<in> set (upre @ upost)" "snd p = x" by blast
    from x(1) s obtain t where t: "x = JStr t" by blast
    with x(3) have "set_key (snd p) = x" by simp
    with x(2) have "x \<in> ?k ` set (upre @ upost)" by force
    with x(1) u(2) kbs show False by blast
  qed
  with u(1) show ?thesis by blast
qed

text \<open>
  Claim C6, as amended. The header is built from what the item gives for \<open>id\<close>,
  \<open>poster\<close>, \<open>name\<close> and \<open>year\<close> and from whether the content type is \<open>series\<close>, and
  from nothing else: \<^verbatim>\<open>create_extinf\<close> reads no other state, and two items that agree
  on these four reads, with content types that agree on being \<open>series\<close>, give the same
  header or the same exception. When the adapter of the static catalog returns, a movie
  of the list of categories whose \<open>streams\<close> are truthy has a list \<open>ss\<close> of streams, not
  empty, and the adapter has appended for it, right after the entries of the movies
  before it, exactly \<open>length ss\<close> entries, one for each stream in order, all with the
  one header built from the movie; the same holds, after the entries of all movies, for
  an item of \<open>series\<close>, which is kept whatever it is. In a run of \<^verbatim>\<open>main\<close> that ends,
  these entries pass the deduplicator with all the others: when the urls of the item
  are strings, pairwise different and not among the urls of the entries before them,
  the file holds them as one block of \<open>length ss\<close> entries with the one header, and no
  other entry with one of these urls.
\<close>

theorem one_header_per_item:
  "(dict_get item ''id'' = dict_get item' ''id''
      \<and> dict_get item ''poster'' = dict_get item' ''poster''
      \<and> dict_get_default item ''name'' (JStr ''Unknown'')
          = dict_get_default item' ''name'' (JStr ''Unknown'')
      \<and> dict_get item ''year'' = dict_get item' ''year''
      \<and> (content_type = ''series'' \<longleftrightarrow> content_type' = ''series'')
      \<longrightarrow> create_extinf item content_type = create_extinf item' content_type')
   \<and> (static_catalog data es = Inr (es', mc, sc)
        \<and> dict_get_default data ''movies'' (JArr []) = Inr (JArr (before @ movie # after))
        \<and> dict_get movie ''category'' = Inr (JStr c) \<and> c \<in> set domestic_categories
        \<and> dict_get movie ''streams'' = Inr st \<and> truthy st
      \<longrightarrow> (\<exists>ss h urls pre k post.
             st = JArr ss \<and> ss \<noteq> [] \<and> length urls = length ss
           \<and> create_extinf movie ''movie'' = Inr h
           \<and> map (\<lambda>s. subscript s ''url'') ss = map Inr urls
           \<and> for_each movie_step before (es, 0) = Inr (pre, k)
           \<and> movie_step movie (pre, k) = Inr (pre @ map (Pair h) urls, k + 1)
           \<and> es' = pre @ map (Pair h) urls @ post))
   \<and> (static_catalog data es = Inr (es', mc, sc)
        \<and> dict_get_default data ''movies'' (JArr []) = Inr (JArr ms)
        \<and> dict_get_default data ''series'' (JArr []) = Inr (JArr (before @ sitem # after))
        \<and> dict_get sitem ''streams'' = Inr st \<and> truthy st
      \<longrightarrow> (\<exists>ss h urls e1 pre k post.
             st = JArr ss \<and> ss \<noteq> [] \<and> length urls = length ss
           \<and> create_extinf sitem ''series'' = Inr h
           \<and> map (\<lambda>s. subscript s ''url'') ss = map Inr urls
           \<and> for_each movie_step ms (es, 0) = Inr (e1, mc)
           \<and> for_each series_step before (e1, 0) = Inr (pre, k)
           \<and> series_step sitem (pre, k) = Inr (pre @ map (Pair h) urls, k + 1)
           \<and> es' = pre @ map (Pair h) urls @ post))
   \<and> (main fetch_json w0 = Some (Inr ((file, stats), w')) \<and> fetch_json baubau_url w0 = (data, w1)
        \<and> dict_get_default data ''movies'' (JArr []) = Inr (JArr (before @ movie # after))
        \<and> dict_get movie ''category'' = Inr (JStr c) \<and> c \<in> set domestic_categories
        \<and> dict_get movie ''streams'' = Inr st \<and> truthy st
      \<longrightarrow> (\<exists>ss h urls pre k post unique.
             st = JArr ss \<and> length urls = length ss
           \<and> create_extinf movie ''movie'' = Inr h
           \<and> map (\<lambda>s. subscript s ''url'') ss = map Inr urls
           \<and> for_each movie_step before ([], 0) = Inr (pre, k)
           \<and> remove_duplicates (pre @ map (Pair h) urls @ post) = Inr unique
           \<and> file = m3u_file unique
           \<and> (distinct urls \<and> (\<forall>u\<in>set urls. \<exists>s. u = JStr s) \<and> set urls \<inter> snd ` set pre = {}
                \<longrightarrow> (\<exists>upre upost. unique = upre @ map (Pair h) urls @ upost
                        \<and> set urls \<inter> snd ` set (upre @ upost) = {}))))
   \<and> (main fetch_json w0 = Some (Inr ((file, stats), w')) \<and> fetch_json baubau_url w0 = (data, w1)
        \<and> dict_get_default data ''movies'' (JArr []) = Inr (JArr ms)
        \<and> dict_get_default data ''series'' (JArr []) = Inr (JArr (before @ sitem # after))
        \<and> dict_get sitem ''streams'' = Inr st \<and> truthy st
      \<longrightarrow> (\<exists>ss h urls e1 k1 pre k post unique.
             st = JArr ss \<and> length urls = length ss
           \<and> create_extinf sitem ''series'' = Inr h
           \<and> map (\<lambda>s. subscript s ''url'') ss = map Inr urls
           \<and> for_each movie_step ms ([], 0) = Inr (e1, k1)
           \<and> for_each series_step before (e1, 0) = Inr (pre, k)
           \<and> remove_duplicates (pre @ map (Pair h) urls @ post) = Inr unique
           \<and> file = m3u_file unique
           \<and> (distinct urls \<and> (\<forall>u\<in>set urls. \<exists>s. u = JStr s) \<and> set urls \<inter> snd ` set pre = {}
                \<longrightarrow> (\<exists>upre upost. unique = upre @ map (Pair h) urls @ upost
                        \<and> set urls \<inter> snd ` set (upre @ upost) = {}))))"
proof (intro conjI impI)
  assume "dict_get item ''id'' = dict_get item' ''id''
      \<and> dict_get item ''poster'' = dict_get item' ''poster''
      \<and> dict_get_default item ''name'' (JStr ''Unknown'')
          = dict_get_default item' ''name'' (JStr ''Unknown'')
      \<and> dict_get item ''year'' = dict_get item' ''year''
      \<and> (content_type = ''series'' \<longleftrightarrow> content_type' = ''series'')"
  then show "create_extinf item content_type = create_extinf item' content_type'"
    by (intro create_extinf_frame) simp_all
next
  assume a: "static_catalog data es = Inr (es', mc, sc)
        \<and> dict_get_default data ''movies'' (JArr []) = Inr (JArr (before @ movie # after))
        \<and> dict_get movie ''category'' = Inr (JStr c) \<and> c \<in> set domestic_categories
        \<and> dict_get movie ''streams'' = Inr st \<and> truthy st"
  then have run: "static_catalog data es = Inr (es', mc, sc)"
    and mv: "dict_get_default data ''movies'' (JArr []) = Inr (JArr (before @ movie # after))"
    and c: "dict_get movie ''category'' = Inr (JStr c)" "c \<in> set domestic_categories"
    and st: "dict_get movie ''streams'' = Inr st" "truthy st"
    by simp_all
  from static_catalog_movie_block[OF run mv] obtain pre k new k' post where
    b: "for_each movie_step before (es, 0) = Inr (pre, k)"
       "movie_step movie (pre, k) = Inr (pre @ new, k + k')"
       "es' = pre @ new @ post"
    by blast
  from movie_step_kept_block[OF b(2) c st] obtain ss h urls where
    k: "st = JArr ss" "ss \<noteq> []" "create_extinf movie ''movie'' = Inr h"
       "map (\<lambda>s. subscript s ''url'') ss = map Inr urls"
       "pre @ new = pre @ map (Pair h) urls" "k + k' = k + 1"
    by blast
  from k(4) have l: "length urls = length ss" by (metis length_map)
  from k(5) have n: "new = map (Pair h) urls" by simp
  from b k l n
  have "st = JArr ss \<and> ss \<noteq> [] \<and> length urls = length ss
           \<and> create_extinf movie ''movie'' = Inr h
           \<and> map (\<lambda>s. subscript s ''url'') ss = map Inr urls
           \<and> for_each movie_step before (es, 0) = Inr (pre, k)
           \<and> movie_step movie (pre, k) = Inr (pre @ map (Pair h) urls, k + 1)
           \<and> es' = pre @ map (Pair h) urls @ post"
    by simp
  then show "\<exists>ss h urls pre k post.
             st = JArr ss \<and> ss \<noteq> [] \<and> length urls = length ss
           \<and> create_extinf movie ''movie'' = Inr h
           \<and> map (\<lambda>s. subscript s ''url'') ss = map Inr urls
           \<and> for_each movie_step before (es, 0) = Inr (pre, k)
           \<and> movie_step movie (pre, k) = Inr (pre @ map (Pair h) urls, k + 1)
           \<and> es' = pre @ map (Pair h) urls @ post"
    by (intro exI)
next
  assume a: "static_catalog data es = Inr (es', mc, sc)
        \<and> dict_get_default data ''movies'' (JArr []) = Inr (JArr ms)
        \<and> dict_get_default data ''series'' (JArr []) = Inr (JArr (before @ sitem # after))
        \<and> dict_get sitem ''streams'' = Inr st \<and> truthy st"
  then have run: "static_catalog data es = Inr (es', mc, sc)"
    and mv: "dict_get_default data ''movies'' (JArr []) = Inr (JArr ms)"
    and sv: "dict_get_default data ''series'' (JArr []) = Inr (JArr (before @ sitem # after))"
    and st: "dict_get sitem ''streams'' = Inr st" "truthy st"
    by simp_all
  from static_catalog_series_block[OF run mv sv] obtain e1 pre k new k' post where
    b: "for_each movie_step ms (es, 0) = Inr (e1, mc)"
       "for_each series_step before (e1, 0) = Inr (pre, k)"
       "series_step sitem (pre, k) = Inr (pre @ new, k + k')"
       "es' = pre @ new @ post"
    by blast
  from series_step_kept_block[OF b(3) st] obtain ss h urls where
    k: "st = JArr ss" "ss \<noteq> []" "create_extinf sitem ''series'' = Inr h"
       "map (\<lambda>s. subscript s ''url'') ss = map Inr urls"
       "pre @ new = pre @ map (Pair h) urls" "k + k' = k + 1"
    by blast
  from k(4) have l: "length urls = length ss" by (metis length_map)
  from k(5) have n: "new = map (Pair h) urls" by simp
  from b k l n
  have "st = JArr ss \<and> ss \<noteq> [] \<and> length urls = length ss
           \<and> create_extinf sitem ''series'' = Inr h
           \<and> map (\<lambda>s. subscript s ''url'') ss = map Inr urls
           \<and> for_each movie_step ms (es, 0) = Inr (e1, mc)
           \<and> for_each series_step before (e1, 0) = Inr (pre, k)
           \<and> series_step sitem (pre, k) = Inr (pre @ map (Pair h) urls, k + 1)
           \<and> es' = pre @ map (Pair h) urls @ post"
    by simp
  then show "\<exists>ss h urls e1 pre k post.
             st = JArr ss \<and> ss \<noteq> [] \<and> length urls = length ss
           \<and> create_extinf sitem ''series'' = Inr h
           \<and> map (\<lambda>s. subscript s ''url'') ss = map Inr urls
           \<and> for_each movie_step ms (es, 0) = Inr (e1, mc)
           \<and> for_each series_step before (e1, 0) = Inr (pre, k)
           \<and> series_step sitem (pre, k) = Inr (pre @ map (Pair h) urls, k + 1)
           \<and> es' = pre @ map (Pair h) urls @ post"
    by (intro exI)
next
  assume a: "main fetch_json w0 = Some (Inr ((file, stats), w')) \<and> fetch_json baubau_url w0 = (data, w1)
        \<and> dict_get_default data ''movies'' (JArr []) = Inr (JArr (before @ movie # after))
        \<and> dict_get movie ''category'' = Inr (JStr c) \<and> c \<in> set domestic_categories
        \<and> dict_get movie ''streams'' = Inr st \<and> truthy st"
  then have m: "main fetch_json w0 = Some (Inr ((file, stats), w'))"
    and f: "fetch_json baubau_url w0 = (data, w1)"
    and mv: "dict_get_default data ''movies'' (JArr []) = Inr (JArr (before @ movie # after))"
    and c: "dict_get movie ''category'' = Inr (JStr c)" "c \<in> set domestic_categories"
    and st: "dict_get movie ''streams'' = Inr st" "truthy st"
    by simp_all
  from main_entries[OF m f] obtain es1 mc1 sc1 later unique where
    e: "static_catalog data [] = Inr (es1, mc1, sc1)"
       "remove_duplicates (es1 @ later) = Inr unique" "file = m3u_file unique"
    by blast
  from static_catalog_movie_block[OF e(1) mv] obtain pre k new k' post where
    b: "for_each movie_step before ([], 0) = Inr (pre, k)"
       "movie_step movie (pre, k) = Inr (pre @ new, k + k')"
       "es1 = pre @ new @ post"
    by blast
  from movie_step_kept_block[OF b(2) c st] obtain ss h urls where
    k: "st = JArr ss" "ss \<noteq> []" "create_extinf movie ''movie'' = Inr h"
       "map (\<lambda>s. subscript s ''url'') ss = map Inr urls"
       "pre @ new = pre @ map (Pair h) urls" "k + k' = k + 1"
    by blast
  from k(4) have l: "length urls = length ss" by (metis length_map)
  from k(5) have n: "new = map (Pair h) urls" by simp
  have r: "remove_duplicates (pre @ map (Pair h) urls @ (post @ later)) = Inr unique"
    using e(2) b(3) n by simp
  have blk: "distinct urls \<and> (\<forall>u\<in>set urls. \<exists>s. u = JStr s) \<and> set urls \<inter> snd ` set pre = {}
                \<longrightarrow> (\<exists>upre upost. unique = upre @ map (Pair h) urls @ upost
                        \<and> set urls \<inter> snd ` set (upre @ upost) = {})"
    using string_block[OF r] by blast
  from k(1,3,4) l b(1) r e(3) blk
  have "st = JArr ss \<and> length urls = length ss
           \<and> create_extinf movie ''movie'' = Inr h
           \<and> map (\<lambda>s. subscript s ''url'') ss = map Inr urls
           \<and> for_each movie_step before ([], 0) = Inr (pre, k)
           \<and> remove_duplicates (pre @ map (Pair h) urls @ (post @ later)) = Inr unique
           \<and> file = m3u_file unique
           \<and> (distinct urls \<and> (\<forall>u\<in>set urls. \<exists>s. u = JStr s) \<and> set urls \<inter> snd ` set pre = {}
                \<longrightarrow> (\<exists>upre upost. unique = upre @ map (Pair h) urls @ upost
                        \<and> set urls \<inter> snd ` set (upre @ upost) = {}))"
    by (intro conjI)
  then show "\<exists>ss h urls pre k post unique.
             st = JArr ss \<and> length urls = length ss
           \<and> create_extinf movie ''movie'' = Inr h
           \<and> map (\<lambda>s. subscript s ''url'') ss = map Inr urls
           \<and> for_each movie_step before ([], 0) = Inr (pre, k)
           \<and> remove_duplicates (pre @ map (Pair h) urls @ post) = Inr unique
           \<and> file = m3u_file unique
           \<and> (distinct urls \<and> (\<forall>u\<in>set urls. \<exists>s. u = JStr s) \<and> set urls \<inter> snd ` set pre = {}
                \<longrightarrow> (\<exists>upre upost. unique = upre @ map (Pair h) urls @ upost
                        \<and> set urls \<inter> snd ` set (upre @ upost) = {}))"
    by (intro exI)
next
  assume a: "main fetch_json w0 = Some (Inr ((file, stats), w')) \<and> fetch_json baubau_url w0 = (data, w1)
        \<and> dict_get_default data ''movies'' (JArr []) = Inr (JArr ms)
        \<and> dict_get_default data ''series'' (JArr []) = Inr (JArr (before @ sitem # after))
        \<and> dict_get sitem ''streams'' = Inr st \<and> truthy st"
  then have m: "main fetch_json w0 = Some (Inr ((file, stats), w'))"
    and f: "fetch_json baubau_url w0 = (data, w1)"
    and mv: "dict_get_default data ''movies'' (JArr []) = Inr (JArr ms)"
    and sv: "dict_get_default data ''series'' (JArr []) = Inr (JArr (before @ sitem # after))"
    and st: "dict_get sitem ''streams'' = Inr st" "truthy st"
    by simp_all
  from main_entries[OF m f] obtain es1 mc1 sc1 later unique where
    e: "static_catalog data [] = Inr (es1, mc1, sc1)"
       "remove_duplicates (es1 @ later) = Inr unique" "file = m3u_file unique"
    by blast
  from static_catalog_series_block[OF e(1) mv sv] obtain e1 pre k new k' post where
    b: "for_each movie_step ms ([], 0) = Inr (e1, mc1)"
       "for_each series_step before (e1, 0) = Inr (pre, k)"
       "series_step sitem (pre, k) = Inr (pre @ new, k + k')"
       "es1 = pre @ new @ post"
    by blast
  from series_step_kept_block[OF b(3) st] obtain ss h urls where
    k: "st = JArr ss" "ss \<noteq> []" "create_extinf sitem ''series'' = Inr h"
       "map (\<lambda>s. subscript s ''url'') ss = map Inr urls"
       "pre @ new = pre @ map (Pair h) urls" "k + k' = k + 1"
    by blast
  from k(4) have l: "length urls = length ss" by (metis length_map)
  from k(5) have n: "new = map (Pair h) urls" by simp
  have r: "remove_duplicates (pre @ map (Pair h) urls @ (post @ later)) = Inr unique"
    using e(2) b(4) n by simp
  have blk: "distinct urls \<and> (\<forall>u\<in>set urls. \<exists>s. u = JStr s) \<and> set urls \<inter> snd ` set pre = {}
                \<longrightarrow> (\<exists>upre upost. unique = upre @ map (Pair h) urls @ upost
                        \<and> set urls \<inter> snd ` set (upre @ upost) = {})"
    using string_block[OF r] by blast
  from k(1,3,4) l b(1,2) r e(3) blk
  have "st = JArr ss \<and> length urls = length ss
           \<and> create_extinf sitem ''series'' = Inr h
           \<and> map (\<lambda>s. subscript s ''url'') ss = map Inr urls
           \<and> for_each movie_step ms ([], 0) = Inr (e1, mc1)
           \<and> for_each series_step before (e1, 0) = Inr (pre, k)
           \<and> remove_duplicates (pre @ map (Pair h) urls @ (post @ later)) = Inr unique
           \<and> file = m3u_file unique
           \<and> (distinct urls \<and> (\<forall>u\<in>set urls. \<exists>s. u = JStr s) \<and> set urls \<inter> snd ` set pre = {}
                \<longrightarrow> (\<exists>upre upost. unique = upre @ map (Pair h) urls @ upost
                        \<and> set urls \<inter> snd ` set (upre @ upost) = {}))"
    by (intro conjI)
  then show "\<exists>ss h urls e1 k1 pre k post unique.
             st = JArr ss \<and> length urls = length ss
           \<and> create_extinf sitem ''series'' = Inr h
           \<and> map (\<lambda>s. subscript s ''url'') ss = map Inr urls
           \<and> for_each movie_step ms ([], 0) = Inr (e1, k1)
           \<and> for_each series_step before (e1, 0) = Inr (pre, k)
           \<and> remove_duplicates (pre @ map (Pair h) urls @ post) = Inr unique
           \<and> file = m3u_file unique
           \<and> (distinct urls \<and> (\<forall>u\<in>set urls. \<exists>s. u = JStr s) \<and> set urls \<inter> snd ` set pre = {}
                \<longrightarrow> (\<exists>upre upost. unique = upre @ map (Pair h) urls @ upost
                        \<and> set urls \<inter> snd ` set (upre @ upost) = {}))"
    by (intro exI)
qed

text \<open>The movie of the small catalog and an item with the same identifier and name but
  nothing else have the same header; the adapter appends two entries for the movie, and
  the file has them as a block, though the series item that follows has the url of the
  first.\<close>

theorem one_header_per_item_witness:
  "create_extinf (JObj [(''id'', JStr ''tt123''), (''name'', JStr ''Film''),
                        (''category'', JStr ''EX YU FILMOVI''),
                        (''streams'', JArr [JObj [(''url'', JStr ''http://a'')],
                                            JObj [(''url'', JStr ''http://b'')]])]) ''movie''
     = create_extinf (JObj [(''name'', JStr ''Film''), (''id'', JStr ''tt123'')]) ''film''
   \<and> (\<exists>post. static_catalog sample_catalog []
         = Inr ([] @ map (Pair ''#EXTINF:-1 tvg-id=\"123\" tvg-name=\"Film\" group-title=\"Movies\", Film'')
                      [JStr ''http://a'', JStr ''http://b''] @ post, 1, 1))
   \<and> main (catalog_net sample_catalog) ()
       = Some (Inr ((m3u_file
                       [(''#EXTINF:-1 tvg-id=\"123\" tvg-name=\"Film\" group-title=\"Movies\", Film'', JStr ''http://a''),
                        (''#EXTINF:-1 tvg-id=\"123\" tvg-name=\"Film\" group-title=\"Movies\", Film'', JStr ''http://b'')],
                     \<lparr>total = 2, movies = 2, series = 0, with_tmdb = 2, percent = 100\<rparr>), ()))
   \<and> (\<exists>unique upre upost.
         m3u_file
           [(''#EXTINF:-1 tvg-id=\"123\" tvg-name=\"Film\" group-title=\"Movies\", Film'', JStr ''http://a''),
            (''#EXTINF:-1 tvg-id=\"123\" tvg-name=\"Film\" group-title=\"Movies\", Film'', JStr ''http://b'')]
           = m3u_file unique
       \<and> unique = upre @ map (Pair ''#EXTINF:-1 tvg-id=\"123\" tvg-name=\"Film\" group-title=\"Movies\", Film'')
                            [JStr ''http://a'', JStr ''http://b''] @ upost
       \<and> set [JStr ''http://a'', JStr ''http://b''] \<inter> snd ` set (upre @ upost) = {})"
proof (intro conjI)
  let ?m = "JObj [(''id'', JStr ''tt123''), (''name'', JStr ''Film''),
                        (''category'', JStr ''EX YU FILMOVI''),
                        (''streams'', JArr [JObj [(''url'', JStr ''http://a'')],
                                            JObj [(''url'', JStr ''http://b'')]])]"
  let ?m' = "JObj [(''name'', JStr ''Film''), (''id'', JStr ''tt123'')]"
  have "dict_get ?m ''id'' = dict_get ?m' ''id''
      \<and> dict_get ?m ''poster'' = dict_get ?m' ''poster''
      \<and> dict_get_default ?m ''name'' (JStr ''Unknown'') = dict_get_default ?m' ''name'' (JStr ''Unknown'')
      \<and> dict_get ?m ''year'' = dict_get ?m' ''year''
      \<and> (''movie'' = ''series'' \<longleftrightarrow> ''film'' = ''series'')"
    by simp
  from one_header_per_item[THEN conjunct1, rule_format, OF this]
  show "create_extinf ?m ''movie'' = create_extinf ?m' ''film''" .
next
  let ?m = "JObj [(''id'', JStr ''tt123''), (''name'', JStr ''Film''),
                        (''category'', JStr ''EX YU FILMOVI''),
                        (''streams'', JArr [JObj [(''url'', JStr ''http://a'')],
                                            JObj [(''url'', JStr ''http://b'')]])]"
  let ?h = "''#EXTINF:-1 tvg-id=\"123\" tvg-name=\"Film\" group-title=\"Movies\", Film''"
  let ?s = "''#EXTINF:-1 tvg-name=\"Serija\" group-title=\"Series\", Serija''"
  let ?all = "[(?h, JStr ''http://a''), (?h, JStr ''http://b''), (?s, JStr ''http://a'')]"
  have hm: "create_extinf ?m ''movie'' = Inr ?h"
    by (simp add: create_extinf_def extinf_parts_def tmdb_id_def own_id_def display_title_def)
  have "static_catalog sample_catalog [] = Inr (?all, 1, 1)
        \<and> dict_get_default sample_catalog ''movies'' (JArr []) = Inr (JArr ([] @ ?m # []))
        \<and> dict_get ?m ''category'' = Inr (JStr ''EX YU FILMOVI'')
        \<and> ''EX YU FILMOVI'' \<in> set domestic_categories
        \<and> dict_get ?m ''streams''
            = Inr (JArr [JObj [(''url'', JStr ''http://a'')], JObj [(''url'', JStr ''http://b'')]])
        \<and> truthy (JArr [JObj [(''url'', JStr ''http://a'')], JObj [(''url'', JStr ''http://b'')]])"
    by (simp add: sample_catalog_entries) (simp add: sample_catalog_def domestic_categories_def)
  from one_header_per_item[THEN conjunct2, THEN conjunct1, rule_format, OF this]
  obtain ss h urls pre k post where
    b: "JArr [JObj [(''url'', JStr ''http://a'')], JObj [(''url'', JStr ''http://b'')]] = JArr ss"
       "create_extinf ?m ''movie'' = Inr h"
       "map (\<lambda>s. subscript s ''url'') ss = map Inr urls"
       "for_each movie_step [] ([], 0) = Inr (pre, k)"
       "?all = pre @ map (Pair h) urls @ post"
    by (elim exE conjE) (rule that; assumption)
  from b(2) hm have h: "h = ?h" by simp
  from b(1) have "ss = [JObj [(''url'', JStr ''http://a'')], JObj [(''url'', JStr ''http://b'')]]"
    by simp
  with b(3) have u: "urls = [JStr ''http://a'', JStr ''http://b'']"
    by (auto simp: Cons_eq_map_conv)
  from b(4) have p: "pre = []" by simp
  from b(5) h u p sample_catalog_entries
  have "static_catalog sample_catalog []
         = Inr ([] @ map (Pair ?h) [JStr ''http://a'', JStr ''http://b''] @ post, 1, 1)"
    by simp
  then show "\<exists>post. static_catalog sample_catalog []
         = Inr ([] @ map (Pair ?h) [JStr ''http://a'', JStr ''http://b''] @ post, 1, 1)"
    by (rule exI)
next
  let ?h = "''#EXTINF:-1 tvg-id=\"123\" tvg-name=\"Film\" group-title=\"Movies\", Film''"
  let ?s = "''#EXTINF:-1 tvg-name=\"Serija\" group-title=\"Series\", Serija''"
  let ?all = "[(?h, JStr ''http://a''), (?h, JStr ''http://b''), (?s, JStr ''http://a'')]"
  let ?unique = "[(?h, JStr ''http://a''), (?h, JStr ''http://b'')]"
  have d: "remove_duplicates ?all = Inr ?unique" by (simp add: remove_duplicates_def)
  have st: "statistics ?unique
              = Inr \<lparr>total = 2, movies = 2, series = 0, with_tmdb = 2, percent = 100\<rparr>"
    by (simp add: statistics_def tmdb_percent_def floordiv_def count_with_def)
  show "main (catalog_net sample_catalog) ()
       = Some (Inr ((m3u_file ?unique,
                     \<lparr>total = 2, movies = 2, series = 0, with_tmdb = 2, percent = 100\<rparr>), ()))"
    by (simp add: main_catalog_net[OF sample_catalog_entries] d st)
next
  let ?m = "JObj [(''id'', JStr ''tt123''), (''name'', JStr ''Film''),
                        (''category'', JStr ''EX YU FILMOVI''),
                        (''streams'', JArr [JObj [(''url'', JStr ''http://a'')],
                                            JObj [(''url'', JStr ''http://b'')]])]"
  let ?h = "''#EXTINF:-1 tvg-id=\"123\" tvg-name=\"Film\" group-title=\"Movies\", Film''"
  let ?s = "''#EXTINF:-1 tvg-name=\"Serija\" group-title=\"Series\", Serija''"
  let ?all = "[(?h, JStr ''http://a''), (?h, JStr ''http://b''), (?s, JStr ''http://a'')]"
  let ?unique = "[(?h, JStr ''http://a''), (?h, JStr ''http://b'')]"
  let ?stats = "\<lparr>total = 2, movies = 2, series = 0, with_tmdb = 2, percent = 100\<rparr>"
  have hm: "create_extinf ?m ''movie'' = Inr ?h"
    by (simp add: create_extinf_def extinf_parts_def tmdb_id_def own_id_def display_title_def)
  have d: "remove_duplicates ?all = Inr ?unique" by (simp add: remove_duplicates_def)
  have st: "statistics ?unique = Inr ?stats"
    by (simp add: statistics_def tmdb_percent_def floordiv_def count_with_def)
  have run: "main (catalog_net sample_catalog) () = Some (Inr ((m3u_file ?unique, ?stats), ()))"
    by (simp add: main_catalog_net[OF sample_catalog_entries] d st)
  have "main (catalog_net sample_catalog) () = Some (Inr ((m3u_file ?unique, ?stats), ()))
        \<and> catalog_net sample_catalog baubau_url () = (sample_catalog, ())
        \<and> dict_get_default sample_catalog ''movies'' (JArr []) = Inr (JArr ([] @ ?m # []))
        \<and> dict_get ?m ''category'' = Inr (JStr ''EX YU FILMOVI'')
        \<and> ''EX YU FILMOVI'' \<in> set domestic_categories
        \<and> dict_get ?m ''streams''
            = Inr (JArr [JObj [(''url'', JStr ''http://a'')], JObj [(''url'', JStr ''http://b'')]])
        \<and> truthy (JArr [JObj [(''url'', JStr ''http://a'')], JObj [(''url'', JStr ''http://b'')]])"
    by (simp add: run) (simp add: sample_catalog_def domestic_categories_def catalog_net_def)
  from one_header_per_item[THEN conjunct2, THEN conjunct2, THEN conjunct2, THEN conjunct1,
         rule_format, OF this]
  obtain ss h urls pre k post unique where
    b: "JArr [JObj [(''url'', JStr ''http://a'')], JObj [(''url'', JStr ''http://b'')]] = JArr ss"
       "create_extinf ?m ''movie'' = Inr h"
       "map (\<lambda>s. subscript s ''url'') ss = map Inr urls"
       "for_each movie_step [] ([], 0) = Inr (pre, k)"
       "m3u_file ?unique = m3u_file unique"
       "distinct urls \<and> (\<forall>u\<in>set urls. \<exists>s. u = JStr s) \<and> set urls \<inter> snd ` set pre = {}
          \<longrightarrow> (\<exists>upre upost. unique = upre @ map (Pair h) urls @ upost
                  \<and> set urls \<inter> snd ` set (upre @ upost) = {})"
    by (elim exE conjE) (rule that; assumption)
  from b(2) hm have h: "h = ?h" by simp
  from b(1) have "ss = [JObj [(''url'', JStr ''http://a'')], JObj [(''url'', JStr ''http://b'')]]"
    by simp
  with b(3) have u: "urls = [JStr ''http://a'', JStr ''http://b'']"
    by (auto simp: Cons_eq_map_conv)
  from b(4) have p: "pre = []" by simp
  have "distinct urls \<and> (\<forall>u\<in>set urls. \<exists>s. u = JStr s) \<and> set urls \<inter> snd ` set pre = {}"
    by (simp add: u p)
  with b(6) have "\<exists>upre upost. unique = upre @ map (Pair h) urls @ upost
                  \<and> set urls \<inter> snd ` set (upre @ upost) = {}"
    by (rule mp)
  then obtain upre upost where
    "unique = upre @ map (Pair h) urls @ upost" "set urls \<inter> snd ` set (upre @ upost) = {}"
    by (elim exE conjE) (rule that; assumption)
  with b(5) h u
  have "m3u_file ?unique = m3u_file unique
       \<and> unique = upre @ map (Pair ?h) [JStr ''http://a'', JStr ''http://b''] @ upost
       \<and> set [JStr ''http://a'', JStr ''http://b''] \<inter> snd ` set (upre @ upost) = {}"
    by simp
  then show "\<exists>unique upre upost.
         m3u_file ?unique = m3u_file unique
       \<and> unique = upre @ map (Pair ?h) [JStr ''http://a'', JStr ''http://b''] @ upost
       \<and> set [JStr ''http://a'', JStr ''http://b''] \<inter> snd ` set (upre @ upost) = {}"
    by (intro exI)
qed

text \<open>The claim as first stated fails on a kept movie whose two streams have the same
  url: the adapter appends two entries with the one header, the deduplicator drops the
  second, and the file has one entry.\<close>

theorem one_header_per_item_counterexample:
  "static_catalog twin_catalog []
     = Inr ([(''#EXTINF:-1 tvg-name=\"Film\" group-title=\"Movies\", Film'', JStr ''http://a''),
             (''#EXTINF:-1 tvg-name=\"Film\" group-title=\"Movies\", Film'', JStr ''http://a'')], 1, 0)
   \<and> main (catalog_net twin_catalog) ()
       = Some (Inr ((m3u_file
                       [(''#EXTINF:-1 tvg-name=\"Film\" group-title=\"Movies\", Film'', JStr ''http://a'')],
                     \<lparr>total = 1, movies = 1, series = 0, with_tmdb = 0, percent = 0\<rparr>), ()))
   \<and> text_lines (m3u_file
         [(''#EXTINF:-1 tvg-name=\"Film\" group-title=\"Movies\", Film'', JStr ''http://a'')])
       = [''#EXTM3U'', ''#EXTINF:-1 tvg-name=\"Film\" group-title=\"Movies\", Film'', ''http://a'']"
proof (intro conjI)
  let ?h = "''#EXTINF:-1 tvg-name=\"Film\" group-title=\"Movies\", Film''"
  show "static_catalog twin_catalog [] = Inr ([(?h, JStr ''http://a''), (?h, JStr ''http://a'')], 1, 0)"
    by (rule twin_catalog_entries)
  have d: "remove_duplicates [(?h, JStr ''http://a''), (?h, JStr ''http://a'')]
             = Inr [(?h, JStr ''http://a'')]"
    by (simp add: remove_duplicates_def)
  have st: "statistics [(?h, JStr ''http://a'')]
              = Inr \<lparr>total = 1, movies = 1, series = 0, with_tmdb = 0, percent = 0\<rparr>"
    by (simp add: statistics_def tmdb_percent_def floordiv_def count_with_def)
  show "main (catalog_net twin_catalog) ()
       = Some (Inr ((m3u_file [(?h, JStr ''http://a'')],
                     \<lparr>total = 1, movies = 1, series = 0, with_tmdb = 0, percent = 0\<rparr>), ()))"
    by (simp add: main_catalog_net[OF twin_catalog_entries] d st)
  show "text_lines (m3u_file [(?h, JStr ''http://a'')]) = [''#EXTM3U'', ?h, ''http://a'']"
    by (simp add: text_lines_def m3u_file_def)
qed

section \<open>The summary\<close>

text \<open>
  Claim C9. With no retained entry the percentage of entries with an external ID is 0.
  The division is guarded by the test of \<open>unique_entries\<close>: the percentage never is
  a division error, it is 0 on the empty list and the floor of the quotient otherwise,
  and the summary is always computed.
\<close>

theorem tmdb_percent_guarded:
  "tmdb_percent [] = Inr 0
   \<and> tmdb_percent unique_entries \<noteq> Inl ZeroDivisionError
   \<and> tmdb_percent unique_entries =
       Inr (if unique_entries = [] then 0
            else count_with ''tvg-id=\"'' unique_entries * 100 div int (length unique_entries))
   \<and> (\<exists>stats. statistics unique_entries = Inr stats)
   \<and> map_sum id percent (statistics []) = Inr 0"
  by (simp add: tmdb_percent_def floordiv_def statistics_def)

end
